theory Spec2Isabelle
  imports Main "HOL-Library.FSet"
begin

section \<open>The environment editor's working state (EnvEditor.tsx)\<close>

subsection \<open>Arrays and maps of the host language\<close>

type_synonym entry = "string \<times> string"

text \<open>
  A JavaScript array of pairs. A slot that was never written (a hole, read as
  \<open>undefined\<close>) is \<open>None\<close>: \<open>entries[index] = v\<close> beyond the end extends the array and
  leaves holes behind. An index is a natural number, as the editor and \<open>applyDiff\<close>
  produce them.
\<close>

type_synonym js_array = "entry option list"

text \<open>
  The (index, element) pairs that the callbacks of \<open>filter\<close> and \<open>reduce\<close> are called
  with, in order: both skip holes.
\<close>

definition present :: "js_array \<Rightarrow> (nat \<times> entry) list" where
  "present arr = List.map_filter (\<lambda>(i, x). map_option (Pair i) x) (enumerate 0 arr)"

datatype error = TypeError

text \<open>
  \<open>jspb.Map<string, string>\<close> of google-protobuf, which is not part of the repository.
  A map is built over an array of pairs and keeps it: \<open>toArray()\<close> returns that array, in
  its order and with its repeated keys (section 4.1 of the spec: no enforcement of key
  uniqueness). The constructor reads key and value of every slot into a table by key, so
  \<open>new jspb.Map(arr)\<close> throws a TypeError when \<open>arr\<close> has a hole, and \<open>getLength()\<close> is the
  number of keys of that table: the number of distinct keys of the pairs. The table is a
  plain object, which does not keep an entry under the key \<open>__proto__\<close>.
\<close>

type_synonym Entries = js_array

definition new_Map :: "js_array \<Rightarrow> error + Entries" where
  "new_Map arr = (if None \<in> set arr then Inl TypeError else Inr arr)"

definition toArray :: "Entries \<Rightarrow> js_array" where
  [simp]: "toArray m = m"

text \<open>The pairs of a map, in order.\<close>

definition toPairs :: "Entries \<Rightarrow> entry list" where
  "toPairs m = map snd (present (toArray m))"

definition getLength :: "Entries \<Rightarrow> nat" where
  "getLength m = length (remdups (filter (\<lambda>key. key \<noteq> ''__proto__'') (map fst (toPairs m))))"

text \<open>\<open>arr[index]\<close>: \<open>undefined\<close> at a hole and beyond the end.\<close>

definition js_index :: "js_array \<Rightarrow> nat \<Rightarrow> entry option" where
  "js_index arr i = (if i < length arr then arr ! i else None)"

text \<open>
  \<open>(arr[index] || [])[0] || ''\<close> and \<open>(arr[index] || [])[1] || ''\<close>: the key and the value
  of a slot, empty where the slot is \<open>undefined\<close>.
\<close>

definition keyAt :: "js_array \<Rightarrow> nat \<Rightarrow> string" where
  "keyAt arr i = (case js_index arr i of None \<Rightarrow> [] | Some e \<Rightarrow> fst e)"

definition valueAt :: "js_array \<Rightarrow> nat \<Rightarrow> string" where
  "valueAt arr i = (case js_index arr i of None \<Rightarrow> [] | Some e \<Rightarrow> snd e)"

text \<open>\<open>arr[index] = v\<close> on an array: in range it overwrites, beyond the end it extends.\<close>

definition js_assign :: "js_array \<Rightarrow> nat \<Rightarrow> entry \<Rightarrow> js_array" where
  "js_assign arr i v =
     (if i < length arr then arr[i := Some v]
      else arr @ replicate (i - length arr) None @ [Some v])"

text \<open>
  \<open>entriesEqual(a, b)\<close>, read as a condition: \<open>a && b && a[0] === b[0] && a[1] === b[1]\<close>.
\<close>

fun entriesEqual :: "entry option \<Rightarrow> entry option \<Rightarrow> bool" where
  "entriesEqual (Some a) (Some b) = (fst a = fst b \<and> snd a = snd b)"
| "entriesEqual _ _ = False"

text \<open>
  Modelled from the spec: \<open>fz(candidate, query)\<close> (the package fz, not part of the
  repository) is a case-insensitive subsequence match of the query against the candidate.
\<close>

definition lower :: "char \<Rightarrow> char" where
  "lower c = (let n = (of_char c :: nat) in if 65 \<le> n \<and> n \<le> 90 then char_of (n + 32) else c)"

fun subsequence :: "'a list \<Rightarrow> 'a list \<Rightarrow> bool" where
  "subsequence [] ys = True"
| "subsequence (x # xs) [] = False"
| "subsequence (x # xs) (y # ys) = (if x = y then subsequence xs ys else subsequence (x # xs) ys)"

definition fz :: "string \<Rightarrow> string \<Rightarrow> bool" where
  "fz candidate query = subsequence (map lower query) (map lower candidate)"

subsection \<open>The shared tracking objects\<close>

text \<open>
  \<open>deletedIndices\<close>, \<open>changedIndices\<close> and \<open>uniqueKeyMap\<close> are mutable objects that the
  internal state refers to; \<open>Object.assign({}, this._state)\<close> copies the references, not
  the objects. The store maps a reference to the object's content, with one table for
  each of the three kinds of object (a field never holds an object of another field's
  kind). Only \<open>true\<close> is ever stored in \<open>deletedIndices\<close> and \<open>changedIndices\<close>, so each
  is the finite set of its keys; \<open>Object.keys(o).length\<close> is the set's size.
\<close>

type_synonym ref = nat

text \<open>
  \<open>uniqueKeyMap\<close> is a plain object, written \<open>m[key] = index\<close> and read \<open>m[key] > -1\<close>.
  The name \<open>__proto__\<close> is not a property of its own: assigning a number to it stores
  nothing, and reading it gives the prototype, which is not greater than -1. Every other
  name that is not stored reads as \<open>undefined\<close> or as an inherited function, neither of
  which is greater than -1 (\<open>None\<close>).
\<close>

definition obj_set :: "(string \<rightharpoonup> nat) \<Rightarrow> string \<Rightarrow> nat \<Rightarrow> (string \<rightharpoonup> nat)" where
  "obj_set m key index = (if key = ''__proto__'' then m else m(key \<mapsto> index))"

definition obj_get :: "(string \<rightharpoonup> nat) \<Rightarrow> string \<Rightarrow> nat option" where
  "obj_get m key = (if key = ''__proto__'' then None else m key)"

record heap =
  deletedObjs :: "ref \<Rightarrow> nat fset"
  changedObjs :: "ref \<Rightarrow> nat fset"
  keyMapObjs :: "ref \<Rightarrow> (string \<rightharpoonup> nat)"
  nextRef :: ref

record EnvStateInternalState =
  originalEntries :: Entries
  uniqueKeyMap :: ref
  filterText :: string
  deletedIndices :: ref
  changedIndices :: ref

text \<open>
  \<open>hasChanges\<close> is declared but assigned only by \<open>_trackChanges\<close>: \<open>None\<close> is
  \<open>undefined\<close>, which the editor reads as false.
\<close>

record EnvState =
  length_env :: nat
  deletedLength :: nat
  hasChanges :: "bool option"
  priv_entries :: Entries
  priv_state :: EnvStateInternalState

definition deleted :: "EnvState \<Rightarrow> heap \<Rightarrow> nat fset" where
  "deleted this h = deletedObjs h (deletedIndices (priv_state this))"

definition changed :: "EnvState \<Rightarrow> heap \<Rightarrow> nat fset" where
  "changed this h = changedObjs h (changedIndices (priv_state this))"

definition keyMap :: "EnvState \<Rightarrow> heap \<Rightarrow> (string \<rightharpoonup> nat)" where
  "keyMap this h = keyMapObjs h (uniqueKeyMap (priv_state this))"

subsection \<open>class EnvState\<close>

definition setDeletedLength :: "EnvState \<Rightarrow> heap \<Rightarrow> EnvState" where
  "setDeletedLength this h = this\<lparr>deletedLength := fcard (deleted this h)\<rparr>"

text \<open>The reducer of the constructor: \<open>m[key] = index\<close> for every pair, in order.\<close>

definition indexByKey :: "Entries \<Rightarrow> (string \<rightharpoonup> nat)" where
  "indexByKey entries =
     fold (\<lambda>(index, (key, v)) m. obj_set m key index) (present (toArray entries)) Map.empty"

text \<open>
  \<open>new EnvState(entries, state)\<close>. Without a state the three tracking objects are
  allocated afresh, each in its table under the next free reference. The constructor
  does not assign \<open>hasChanges\<close>.
\<close>

definition new_EnvState ::
  "Entries \<Rightarrow> EnvStateInternalState option \<Rightarrow> heap \<Rightarrow> EnvState \<times> heap" where
  "new_EnvState entries state h =
     (let (st, h1) =
        (case state of
           Some st \<Rightarrow> (st, h)
         | None \<Rightarrow>
             (let r = nextRef h in
                (\<lparr>originalEntries = entries, uniqueKeyMap = r, filterText = [],
                  deletedIndices = r, changedIndices = r\<rparr>,
                 h\<lparr>deletedObjs := (deletedObjs h)(r := {||}),
                   changedObjs := (changedObjs h)(r := {||}),
                   keyMapObjs := (keyMapObjs h)(r := indexByKey entries),
                   nextRef := Suc r\<rparr>)));
          this = \<lparr>length_env = getLength entries, deletedLength = 0, hasChanges = None,
                   priv_entries = entries, priv_state = st\<rparr>
      in (setDeletedLength this h1, h1))"

definition dup :: "EnvState \<Rightarrow> heap \<Rightarrow> EnvState \<times> heap" where
  "dup this h = new_EnvState (priv_entries this) (Some (priv_state this)) h"

definition filtered :: "string \<Rightarrow> EnvState \<Rightarrow> heap \<Rightarrow> EnvState \<times> heap" where
  "filtered ft this h =
     new_EnvState (priv_entries this) (Some ((priv_state this)\<lparr>filterText := ft\<rparr>)) h"

text \<open>
  \<open>entries()\<close>. The array that \<open>filter\<close> returns has no hole, so the constructor of the
  map returns (\<open>projr\<close> takes the map it returns).
\<close>

definition entries :: "EnvState \<Rightarrow> heap \<Rightarrow> Entries" where
  "entries this h =
     projr (new_Map (map (Some \<circ> snd)
       (filter (\<lambda>(index, entry). index |\<notin>| deleted this h \<and> fst entry \<noteq> [] \<and> snd entry \<noteq> [])
          (present (toArray (priv_entries this))))))"

text \<open>
  \<open>map(fn)\<close> and \<open>mapDeleted(fn)\<close>: the \<open>reduce\<close> of the source, each result of \<open>fn\<close> added
  as one element (the results are not arrays, which \<open>concat\<close> would splice).
\<close>

definition map_env :: "(entry \<Rightarrow> nat \<Rightarrow> 'a) \<Rightarrow> EnvState \<Rightarrow> heap \<Rightarrow> 'a list" where
  "map_env fn this h =
     (let ft = filterText (priv_state this) in
        fold (\<lambda>(index, entry) prev.
                if index |\<in>| deleted this h then prev
                else if ft \<noteq> [] \<and> \<not> fz (fst entry) ft then prev
                else prev @ [fn entry index])
          (present (toArray (priv_entries this))) []
        @ [fn ([], []) (length_env this)])"

definition mapDeleted :: "(entry \<Rightarrow> nat \<Rightarrow> 'a) \<Rightarrow> EnvState \<Rightarrow> heap \<Rightarrow> 'a list" where
  "mapDeleted fn this h =
     fold (\<lambda>(index, entry) prev.
             if index |\<notin>| deleted this h then prev else prev @ [fn entry index])
       (present (toArray (priv_entries this))) []"

definition trackChanges :: "nat \<Rightarrow> EnvState \<Rightarrow> heap \<Rightarrow> EnvState \<times> heap" where
  "trackChanges index this h =
     (let st = priv_state this;
          c = changedObjs h (changedIndices st);
          c' = (if index |\<in>| deletedObjs h (deletedIndices st) then
                  (if index < getLength (originalEntries st) then finsert index c
                   else c |-| {|index|})
                else if entriesEqual (js_index (toArray (originalEntries st)) index)
                          (js_index (toArray (priv_entries this)) index)
                then c |-| {|index|}
                else finsert index c)
      in (this\<lparr>hasChanges := Some (0 < fcard c')\<rparr>,
          h\<lparr>changedObjs := (changedObjs h)(changedIndices st := c')\<rparr>))"

definition removeEntryAtIndex :: "nat \<Rightarrow> EnvState \<Rightarrow> heap \<Rightarrow> EnvState \<times> heap" where
  "removeEntryAtIndex index this h =
     (let d = deletedIndices (priv_state this);
          h1 = h\<lparr>deletedObjs := (deletedObjs h)(d := finsert index (deletedObjs h d))\<rparr>
      in trackChanges index (setDeletedLength this h1) h1)"

text \<open>
  \<open>setKeyAtIndex\<close> and \<open>setValueAtIndex\<close> build a map over the copied array. When the
  constructor throws (the write was beyond the end and left a hole), the exception leaves
  the method: \<open>length\<close> is already assigned, \<open>_entries\<close> and the changed indices are not.
  The first component of the result is the exception, if any; the session and the store
  are as the method left them.
\<close>

definition setKeyAtIndex ::
  "nat \<Rightarrow> string \<Rightarrow> EnvState \<Rightarrow> heap \<Rightarrow> error option \<times> EnvState \<times> heap" where
  "setKeyAtIndex index key this h =
     (let d = deletedIndices (priv_state this);
          h1 = h\<lparr>deletedObjs := (deletedObjs h)(d := deletedObjs h d |-| {|index|})\<rparr>;
          this1 = setDeletedLength this h1;
          old = toArray (priv_entries this1);
          arr = js_assign old index (key, valueAt old index);
          this2 = this1\<lparr>length_env := length arr\<rparr>
      in case new_Map arr of
           Inl e \<Rightarrow> (Some e, this2, h1)
         | Inr m \<Rightarrow>
             (let this3 = this2\<lparr>priv_entries := m\<rparr>;
                  (this4, h4) = trackChanges index this3 h1;
                  u = uniqueKeyMap (priv_state this4)
              in case obj_get (keyMapObjs h4 u) key of
                   None \<Rightarrow> (None, this4, h4)
                 | Some j \<Rightarrow>
                     if j \<noteq> index \<and> index < length arr then
                       (let (this5, h5) = removeEntryAtIndex j this4 h4
                        in (None, this5,
                            h5\<lparr>keyMapObjs :=
                                 (keyMapObjs h5)(u := obj_set (keyMapObjs h5 u) key index)\<rparr>))
                     else (None, this4, h4)))"

definition setValueAtIndex ::
  "nat \<Rightarrow> string \<Rightarrow> EnvState \<Rightarrow> heap \<Rightarrow> error option \<times> EnvState \<times> heap" where
  "setValueAtIndex index val this h =
     (let old = toArray (priv_entries this);
          arr = js_assign old index (keyAt old index, val);
          this1 = this\<lparr>length_env := length arr\<rparr>
      in case new_Map arr of
           Inl e \<Rightarrow> (Some e, this1, h)
         | Inr m \<Rightarrow>
             (let this2 = this1\<lparr>priv_entries := m\<rparr>
              in if val = [] \<and> keyAt arr index = []
                 then (let (this3, h3) = removeEntryAtIndex index this2 h in (None, this3, h3))
                 else (let (this3, h3) = trackChanges index this2 h in (None, this3, h3))))"

subsection \<open>Diffs\<close>

text \<open>
  Modelled from the spec: \<open>DiffOp<string, string>\<close> is declared in util/protoMapDiff,
  which is not among the sources. Section 3 has it as \<open>Add(key, value)\<close> or \<open>Remove(key)\<close>;
  \<open>applyDiff\<close> reads \<open>op.op\<close>, \<open>op.key\<close> and \<open>op.value\<close>.
\<close>

datatype DiffOp = Add string string | Remove string

fun key_of :: "DiffOp \<Rightarrow> string" where
  "key_of (Add k v) = k"
| "key_of (Remove k) = k"

text \<open>
  \<open>arr.findIndex(([key, value]) => key === k)\<close>: the first index whose key is \<open>k\<close>, or
  \<open>None\<close> for -1. \<open>findIndex\<close> visits holes, and destructuring \<open>undefined\<close> throws.
\<close>

fun findIndex :: "string \<Rightarrow> js_array \<Rightarrow> error + nat option" where
  "findIndex k [] = Inr None"
| "findIndex k (None # arr) = Inl TypeError"
| "findIndex k (Some e # arr) =
     (if fst e = k then Inr (Some 0)
      else (case findIndex k arr of
              Inr (Some i) \<Rightarrow> Inr (Some (Suc i))
            | r \<Rightarrow> r))"

text \<open>
  One step of \<open>applyDiff\<close>'s \<open>forEach\<close>. An exception (of \<open>findIndex\<close> or of a setter)
  leaves the session as it is at the throw; the first component reports it.
\<close>

definition applyDiff_op ::
  "DiffOp \<Rightarrow> EnvState \<Rightarrow> heap \<Rightarrow> error option \<times> EnvState \<times> heap" where
  "applyDiff_op dop this h =
     (case findIndex (key_of dop) (toArray (priv_entries this)) of
        Inl e \<Rightarrow> (Some e, this, h)
      | Inr found \<Rightarrow>
          (case dop of
             Add k v \<Rightarrow>
               if v \<noteq> [] then
                 (let index = (case found of
                                 None \<Rightarrow> length (toArray (priv_entries this))
                               | Some i \<Rightarrow> i)
                  in case setKeyAtIndex index k this h of
                       (Some e, this1, h1) \<Rightarrow> (Some e, this1, h1)
                     | (None, this1, h1) \<Rightarrow> setValueAtIndex index v this1 h1)
               else (None, this, h)
           | Remove k \<Rightarrow>
               (case found of
                  Some index \<Rightarrow>
                    (let (this1, h1) = removeEntryAtIndex index this h in (None, this1, h1))
                | None \<Rightarrow> (None, this, h))))"

fun applyDiff :: "DiffOp list \<Rightarrow> EnvState \<Rightarrow> heap \<Rightarrow> error option \<times> EnvState \<times> heap" where
  "applyDiff [] this h = (None, this, h)"
| "applyDiff (dop # diff) this h =
     (case applyDiff_op dop this h of
        (Some e, this1, h1) \<Rightarrow> (Some e, this1, h1)
      | (None, this1, h1) \<Rightarrow> applyDiff diff this1 h1)"

section \<open>The diff engine (util/protoMapDiff)\<close>

text \<open>\<open>get(key)\<close> of section 4.1: the value of the last pair with that key.\<close>

definition get_last :: "entry list \<Rightarrow> string \<Rightarrow> string option" where
  "get_last ps k = map_of (rev ps) k"

text \<open>
  Modelled from the spec: \<open>protoMapDiff\<close> (util/protoMapDiff is not among the sources) is
  \<open>diff\<close> of section 4.2. An Add for every pair of \<open>to\<close> with a non-empty value whose key is
  absent from \<open>from\<close> or has another value there, in \<open>to\<close>'s order; then a Remove for every
  pair of \<open>from\<close> whose key is absent from \<open>to\<close> or has an empty value there, in \<open>from\<close>'s
  order.
\<close>

definition protoMapDiff :: "Entries \<Rightarrow> Entries \<Rightarrow> DiffOp list" where
  "protoMapDiff from to =
     (let f = toPairs from; t = toPairs to in
        map (\<lambda>(k, v). Add k v) (filter (\<lambda>(k, v). v \<noteq> [] \<and> get_last f k \<noteq> Some v) t) @
        map (\<lambda>(k, v). Remove k)
          (filter (\<lambda>(k, v). get_last t k = None \<or> get_last t k = Some []) f))"

text \<open>
  Modelled from the spec: \<open>applyProtoMapDiff\<close> is \<open>apply\<close> of section 4.2. Add overwrites
  the slot that has the key, in place, or appends a new pair; Remove deletes the entries
  with the key. The base is not changed: the result is a new value.
\<close>

fun upsert :: "string \<Rightarrow> string \<Rightarrow> entry list \<Rightarrow> entry list" where
  "upsert k v [] = [(k, v)]"
| "upsert k v (p # ps) = (if fst p = k then (k, v) # ps else p # upsert k v ps)"

fun apply_op :: "DiffOp \<Rightarrow> entry list \<Rightarrow> entry list" where
  "apply_op (Add k v) ps = upsert k v ps"
| "apply_op (Remove k) ps = filter (\<lambda>p. fst p \<noteq> k) ps"

definition applyProtoMapDiff :: "Entries \<Rightarrow> DiffOp list \<Rightarrow> Entries" where
  "applyProtoMapDiff base diff = map Some (fold apply_op diff (toPairs base))"

text \<open>The pairs whose key and value are both non-empty (as \<open>entries()\<close> keeps them).\<close>

definition nonEmptyPairs :: "Entries \<Rightarrow> entry set" where
  "nonEmptyPairs m = set (filter (\<lambda>p. fst p \<noteq> [] \<and> snd p \<noteq> []) (toPairs m))"

section \<open>The reconciler (WrappedEnvEditor._getData)\<close>

text \<open>
  Of a \<open>Release\<close> (generated/controller_pb, not among the sources) the editor reads
  \<open>getName()\<close> and \<open>getEnvMap()\<close>: the two are the fields of the record.
\<close>

record Release =
  getName :: string
  getEnvMap :: Entries

record WrappedState =
  release :: "Release option"
  isLoading :: bool
  isDeploying :: bool
  envState :: "EnvState option"

text \<open>
  The callback that \<open>_getData\<close> gives to \<open>streamAppRelease\<close>, called with a release and
  no error. When \<open>applyDiff\<close> throws, \<open>setState\<close> is not reached.
\<close>

definition getData_onRelease ::
  "Release \<Rightarrow> WrappedState \<Rightarrow> heap \<Rightarrow> error option \<times> WrappedState \<times> heap" where
  "getData_onRelease rel w h =
     (let (envState0, h0) = new_EnvState (getEnvMap rel) None h;
          prevEnvState = envState w;
          prevRelease = release w;
          (err, envState1, h1) =
            (if (case prevRelease of None \<Rightarrow> True | Some pr \<Rightarrow> getName pr \<noteq> getName rel) then
               (case prevEnvState of
                  None \<Rightarrow> (None, envState0, h0)
                | Some pes \<Rightarrow>
                    if hasChanges pes = Some True then
                      (let envDiff =
                             protoMapDiff
                               (case prevRelease of
                                  Some pr \<Rightarrow> getEnvMap pr
                                | None \<Rightarrow> projr (new_Map []))
                               (entries pes h0)
                       in if envDiff \<noteq> [] then applyDiff envDiff envState0 h0
                          else (None, envState0, h0))
                    else (None, envState0, h0))
             else (None, envState0, h0))
      in case err of
           Some e \<Rightarrow> (Some e, w, h1)
         | None \<Rightarrow>
             (None, w\<lparr>release := Some rel, envState := Some envState1, isLoading := False\<rparr>, h1))"

text \<open>A store in which nothing has been allocated.\<close>

definition emptyHeap :: heap where
  "emptyHeap =
     \<lparr>deletedObjs = (\<lambda>r. {||}), changedObjs = (\<lambda>r. {||}), keyMapObjs = (\<lambda>r. Map.empty),
      nextRef = 0\<rparr>"

section \<open>Notions used in the statements and proofs\<close>

text \<open>
  What \<open>_trackChanges(i)\<close> decides: a deleted index counts as changed when it is below
  the baseline's \<open>getLength()\<close>, any other index when its pair is not the baseline's pair
  at that index.
\<close>

definition dirty :: "nat \<Rightarrow> EnvState \<Rightarrow> heap \<Rightarrow> bool" where
  "dirty i this h =
     (if i |\<in>| deleted this h then i < getLength (originalEntries (priv_state this))
      else \<not> entriesEqual (js_index (originalEntries (priv_state this)) i)
                 (js_index (priv_entries this) i))"

text \<open>
  The index that \<open>setKeyAtIndex(i, k)\<close> displaces: the one that \<open>uniqueKeyMap\<close> records for
  \<open>k\<close>, when it is not \<open>i\<close>.
\<close>

definition clash :: "nat \<Rightarrow> string \<Rightarrow> EnvState \<Rightarrow> heap \<Rightarrow> nat option" where
  "clash i k this h =
     (case obj_get (keyMap this h) k of None \<Rightarrow> None | Some j \<Rightarrow> if j \<noteq> i then Some j else None)"

text \<open>
  The operations of a session, as the editor chains them: each is applied to the session
  that the one before returned or, when it threw, left behind (\<open>dup\<close> and \<open>filtered\<close>
  return the copy).
\<close>

datatype operation =
    SetKeyAtIndex nat string
  | SetValueAtIndex nat string
  | RemoveEntryAtIndex nat
  | ApplyDiff "DiffOp list"
  | Dup
  | Filtered string

fun run :: "operation \<Rightarrow> EnvState \<times> heap \<Rightarrow> error option \<times> EnvState \<times> heap" where
  "run (SetKeyAtIndex i k) (this, h) = setKeyAtIndex i k this h"
| "run (SetValueAtIndex i v) (this, h) = setValueAtIndex i v this h"
| "run (RemoveEntryAtIndex i) (this, h) = (None, removeEntryAtIndex i this h)"
| "run (ApplyDiff diff) (this, h) = applyDiff diff this h"
| "run Dup (this, h) = (None, dup this h)"
| "run (Filtered ft) (this, h) = (None, filtered ft this h)"

definition runs :: "operation list \<Rightarrow> EnvState \<times> heap \<Rightarrow> EnvState \<times> heap" where
  "runs ops start = fold (\<lambda>m sh. snd (run m sh)) ops start"

text \<open>The mutation operations: those that change the session they are called on.\<close>

fun is_mutation :: "operation \<Rightarrow> bool" where
  "is_mutation Dup = False"
| "is_mutation (Filtered ft) = False"
| "is_mutation _ = True"

text \<open>
  What \<open>changedIndices\<close> keeps track of: an index that is not in it is either deleted and
  not below the baseline's \<open>getLength()\<close>, or not deleted and holds what the baseline holds
  there.
\<close>

definition tracked :: "EnvState \<Rightarrow> heap \<Rightarrow> bool" where
  "tracked this h =
     (\<forall>i. i |\<notin>| changed this h \<longrightarrow>
        (if i |\<in>| deleted this h then getLength (originalEntries (priv_state this)) \<le> i
         else js_index (priv_entries this) i = js_index (originalEntries (priv_state this)) i))"

text \<open>
  A session over the baseline \<open>b\<close> whose array has no hole and whose \<open>changedIndices\<close>
  keeps track of the baseline in this sense.
\<close>

definition coherent :: "Entries \<Rightarrow> EnvState \<Rightarrow> heap \<Rightarrow> bool" where
  "coherent b this h \<longleftrightarrow>
     originalEntries (priv_state this) = b \<and> None \<notin> set (priv_entries this) \<and> tracked this h"

text \<open>
  The slot that an Add of \<open>applyDiff\<close> writes: the first index of the array whose key is
  \<open>k\<close>, or the length of the array when no key is \<open>k\<close>.
\<close>

definition slot_for :: "js_array \<Rightarrow> string \<Rightarrow> nat \<Rightarrow> bool" where
  "slot_for arr k index =
     (if \<exists>j < length arr. \<exists>w. arr ! j = Some (k, w)
      then index < length arr \<and> (\<exists>w. arr ! index = Some (k, w)) \<and>
           (\<forall>j < index. \<forall>w. arr ! j \<noteq> Some (k, w))
      else index = length arr)"

section \<open>Arrays: what the callbacks see\<close>

lemma present_set_aux:
  "(i, e) \<in> set (List.map_filter (\<lambda>(i, x). map_option (Pair i) x) (enumerate n arr))
     \<longleftrightarrow> (\<exists>j < length arr. i = n + j \<and> arr ! j = Some e)"
proof (induction arr arbitrary: n)
  case Nil
  show ?case by (simp add: map_filter_simps)
next
  case (Cons x xs)
  have split: "(\<exists>j < length (x # xs). i = n + j \<and> (x # xs) ! j = Some e) \<longleftrightarrow>
        (i = n \<and> x = Some e) \<or> (\<exists>j < length xs. i = Suc n + j \<and> xs ! j = Some e)"
    by (auto simp: less_Suc_eq_0_disj)
  show ?case
    unfolding split using Cons[of "Suc n"]
    by (cases x) (auto simp: map_filter_simps)
qed

lemma present_set: "(i, e) \<in> set (present arr) \<longleftrightarrow> js_index arr i = Some e"
  by (auto simp: present_def present_set_aux js_index_def)

lemma present_fst_aux:
  "sorted_wrt (<) (map fst (List.map_filter (\<lambda>(i, x). map_option (Pair i) x) (enumerate n arr)))"
proof (induction arr arbitrary: n)
  case Nil
  show ?case by (simp add: map_filter_def)
next
  case (Cons x xs)
  have "\<forall>p \<in> set (List.map_filter (\<lambda>(i, x). map_option (Pair i) x) (enumerate (Suc n) xs)). n < fst p"
    by (auto simp: present_set_aux)
  with Cons[of "Suc n"] show ?case
    by (cases x) (auto simp: map_filter_simps)
qed

lemma present_sorted: "sorted_wrt (<) (map fst (present arr))"
  by (simp add: present_def present_fst_aux)

lemma fold_snoc_filter:
  "fold (\<lambda>x prev. if P x then prev else prev @ [f x]) xs acc = acc @ map f (filter (\<lambda>x. \<not> P x) xs)"
  by (induction xs arbitrary: acc) auto

lemma js_index_assign: "js_index (js_assign arr i v) j = (if j = i then Some v else js_index arr j)"
  by (auto simp: js_index_def js_assign_def nth_append)

lemma length_js_assign: "length (js_assign arr i v) = max (length arr) (Suc i)"
  by (auto simp: js_assign_def)

lemma js_assign_inside: "i < length arr \<Longrightarrow> js_assign arr i v = arr[i := Some v]"
  by (simp add: js_assign_def)

lemma js_assign_end: "js_assign arr (length arr) v = arr @ [Some v]"
  by (simp add: js_assign_def)

lemma js_assign_dense:
  "None \<notin> set arr \<Longrightarrow> i \<le> length arr \<Longrightarrow> None \<notin> set (js_assign arr i v)"
proof (cases "i < length arr")
  case True
  assume "None \<notin> set arr"
  then have "None \<notin> set (arr[i := Some v])"
    using set_update_subset_insert[of arr i "Some v"] by auto
  then show ?thesis using True by (simp add: js_assign_inside)
next
  case False
  assume "None \<notin> set arr" "i \<le> length arr"
  with False show ?thesis by (simp add: js_assign_def)
qed

lemma js_assign_hole: "length arr < i \<Longrightarrow> None \<in> set (js_assign arr i v)"
  by (simp add: js_assign_def)

lemma js_index_dense: "None \<notin> set arr \<Longrightarrow> i < length arr \<Longrightarrow> js_index arr i = arr ! i"
  by (simp add: js_index_def)

lemma new_Map_dense: "None \<notin> set arr \<Longrightarrow> new_Map arr = Inr arr"
  by (simp add: new_Map_def)

lemma new_Map_hole: "None \<in> set arr \<Longrightarrow> new_Map arr = Inl TypeError"
  by (simp add: new_Map_def)

lemma toPairs_eq: "toPairs m = List.map_filter id m"
proof -
  have "map snd (List.map_filter (\<lambda>(i, x). map_option (Pair i) x) (enumerate n m)) = List.map_filter id m" for n
    by (induction m arbitrary: n) (auto simp: map_filter_simps split: option.splits)
  then show ?thesis by (simp add: toPairs_def present_def)
qed

lemma getLength_le: "getLength m \<le> length m"
proof -
  have "length (List.map_filter id m) \<le> length m"
    by (induction m) (auto simp: map_filter_simps split: option.splits)
  moreover have "getLength m \<le> length (List.map_filter id m)"
  proof -
    have "getLength m \<le> length (filter (\<lambda>key. key \<noteq> ''__proto__'') (map fst (toPairs m)))"
      unfolding getLength_def by (rule length_remdups_leq)
    also have "\<dots> \<le> length (map fst (toPairs m))"
      by (rule length_filter_le)
    finally show ?thesis by (simp add: toPairs_eq)
  qed
  ultimately show ?thesis by simp
qed

lemma toPairs_map_Some: "toPairs (map Some ps) = ps"
  by (induction ps) (simp_all add: toPairs_eq map_filter_simps)

lemma dense_map_filter: "None \<notin> set m \<Longrightarrow> map Some (List.map_filter id m) = m"
proof (induction m)
  case Nil
  show ?case by (simp add: map_filter_simps)
next
  case (Cons a m)
  then show ?case by (cases a) (simp_all add: map_filter_simps)
qed

lemma getLength_distinct:
  "None \<notin> set m \<Longrightarrow> distinct (map fst (toPairs m)) \<Longrightarrow>
   ''__proto__'' \<notin> set (map fst (toPairs m)) \<Longrightarrow> getLength m = length m"
proof -
  assume d: "None \<notin> set m" and u: "distinct (map fst (toPairs m))"
    and np: "''__proto__'' \<notin> set (map fst (toPairs m))"
  have f: "filter (\<lambda>key. key \<noteq> ''__proto__'') (map fst (toPairs m)) = map fst (toPairs m)"
    using np by (intro filter_True) force
  have "length (map Some (List.map_filter id m)) = length m"
    using dense_map_filter[OF d] by simp
  then have "length (toPairs m) = length m" by (simp add: toPairs_eq)
  then show ?thesis using u unfolding getLength_def f by (simp add: distinct_remdups_id)
qed

lemma entries_eq:
  "entries this h =
     map (Some \<circ> snd)
       (filter (\<lambda>(index, entry). index |\<notin>| deleted this h \<and> fst entry \<noteq> [] \<and> snd entry \<noteq> [])
          (present (priv_entries this)))"
proof -
  have d: "None \<notin> set (map (Some \<circ> snd) xs)" for xs :: "(nat \<times> entry) list"
    by (induction xs) simp_all
  show ?thesis
    unfolding entries_def toArray_def new_Map_dense[OF d] by simp
qed

section \<open>What each operation does to the session\<close>

lemma fcard_pos: "(0 < fcard A) = (A \<noteq> {||})"
  using fcard_0_eq[of A] by (cases "fcard A") simp_all

lemma trackChanges_effect:
  assumes "trackChanges i this h = (this', h')"
  shows "priv_entries this' = priv_entries this" and "priv_state this' = priv_state this"
    and "length_env this' = length_env this" and "deletedLength this' = deletedLength this"
    and "hasChanges this' = Some (changed this' h' \<noteq> {||})"
    and "changed this' h' = (if dirty i this h then finsert i (changed this h) else changed this h |-| {|i|})"
    and "deletedObjs h' = deletedObjs h" and "keyMapObjs h' = keyMapObjs h"
    and "nextRef h' = nextRef h"
  using assms
  by (auto simp: trackChanges_def Let_def changed_def deleted_def dirty_def fcard_pos)

lemma removeEntryAtIndex_effect:
  assumes "removeEntryAtIndex i this h = (this', h')"
  shows "priv_entries this' = priv_entries this" and "priv_state this' = priv_state this"
    and "length_env this' = length_env this"
    and "deletedLength this' = fcard (deleted this' h')"
    and "hasChanges this' = Some (changed this' h' \<noteq> {||})"
    and "deleted this' h' = finsert i (deleted this h)"
    and "changed this' h' =
           (if i < getLength (originalEntries (priv_state this)) then finsert i (changed this h)
            else changed this h |-| {|i|})"
    and "keyMapObjs h' = keyMapObjs h" and "nextRef h' = nextRef h"
proof -
  define h1 where "h1 = h\<lparr>deletedObjs := (deletedObjs h)(deletedIndices (priv_state this) :=
      finsert i (deletedObjs h (deletedIndices (priv_state this))))\<rparr>"
  define this1 where "this1 = setDeletedLength this h1"
  have tc: "trackChanges i this1 h1 = (this', h')"
    using assms by (simp add: removeEntryAtIndex_def Let_def h1_def this1_def)
  have d1: "deleted this1 h1 = finsert i (deleted this h)" "changed this1 h1 = changed this h"
    "priv_state this1 = priv_state this" "priv_entries this1 = priv_entries this"
    "length_env this1 = length_env this" "deletedLength this1 = fcard (finsert i (deleted this h))"
    by (simp_all add: deleted_def changed_def h1_def this1_def setDeletedLength_def)
  have dirty1: "dirty i this1 h1 = (i < getLength (originalEntries (priv_state this)))"
    by (simp add: dirty_def d1)
  note e = trackChanges_effect[OF tc]
  show "priv_entries this' = priv_entries this" "priv_state this' = priv_state this"
    "length_env this' = length_env this"
    using e(1,2,3) d1 by simp_all
  show dd: "deleted this' h' = finsert i (deleted this h)"
    using e(2,7) d1(1,3) by (simp add: deleted_def)
  show "deletedLength this' = fcard (deleted this' h')"
    using e(4) d1(6) dd by simp
  show "hasChanges this' = Some (changed this' h' \<noteq> {||})" by (rule e(5))
  show "changed this' h' =
           (if i < getLength (originalEntries (priv_state this)) then finsert i (changed this h)
            else changed this h |-| {|i|})"
    using e(6) dirty1 d1(2) by simp
  show "keyMapObjs h' = keyMapObjs h" "nextRef h' = nextRef h"
    using e(8,9) by (simp_all add: h1_def)
qed

lemma setValueAtIndex_throws:
  assumes "setValueAtIndex i v this h = (err, this', h')"
    and "None \<in> set (js_assign (priv_entries this) i (keyAt (priv_entries this) i, v))"
  shows "err = Some TypeError" and "h' = h"
    and "this' = this\<lparr>length_env :=
           length (js_assign (priv_entries this) i (keyAt (priv_entries this) i, v))\<rparr>"
  using assms by (simp_all add: setValueAtIndex_def Let_def new_Map_hole)

lemma setValueAtIndex_effect:
  assumes "setValueAtIndex i v this h = (err, this', h')"
  defines "arr \<equiv> js_assign (priv_entries this) i (keyAt (priv_entries this) i, v)"
  defines "gone \<equiv> (v = [] \<and> keyAt (priv_entries this) i = [])"
  assumes ok: "None \<notin> set arr"
  shows "err = None"
    and "priv_entries this' = arr" and "priv_state this' = priv_state this"
    and "length_env this' = length arr"
    and "hasChanges this' = Some (changed this' h' \<noteq> {||})"
    and "deleted this' h' = (if gone then finsert i (deleted this h) else deleted this h)"
    and "deletedLength this' = (if gone then fcard (deleted this' h') else deletedLength this)"
    and "changed this' h' =
           (if (if gone \<or> i |\<in>| deleted this h then i < getLength (originalEntries (priv_state this))
                else \<not> entriesEqual (js_index (originalEntries (priv_state this)) i)
                           (Some (keyAt (priv_entries this) i, v)))
            then finsert i (changed this h) else changed this h |-| {|i|})"
    and "keyMapObjs h' = keyMapObjs h" and "nextRef h' = nextRef h"
proof -
  define this2 where "this2 = this\<lparr>length_env := length arr, priv_entries := arr\<rparr>"
  have k: "keyAt arr i = keyAt (priv_entries this) i"
    by (simp add: arr_def keyAt_def js_index_assign)
  have s1: "priv_state this2 = priv_state this" "deleted this2 h = deleted this h"
    "changed this2 h = changed this h" "priv_entries this2 = arr" "length_env this2 = length arr"
    "deletedLength this2 = deletedLength this"
    by (simp_all add: this2_def deleted_def changed_def)
  have body: "setValueAtIndex i v this h =
      (if gone then (let (this3, h3) = removeEntryAtIndex i this2 h in (None, this3, h3))
       else (let (this3, h3) = trackChanges i this2 h in (None, this3, h3)))"
    using ok k unfolding setValueAtIndex_def Let_def this2_def gone_def arr_def
    by (simp add: new_Map_dense)
  have "err = None \<and> priv_entries this' = arr \<and> priv_state this' = priv_state this \<and> length_env this' = length arr
    \<and> hasChanges this' = Some (changed this' h' \<noteq> {||})
    \<and> deleted this' h' = (if gone then finsert i (deleted this h) else deleted this h)
    \<and> deletedLength this' = (if gone then fcard (deleted this' h') else deletedLength this)
    \<and> changed this' h' =
           (if (if gone \<or> i |\<in>| deleted this h then i < getLength (originalEntries (priv_state this))
                else \<not> entriesEqual (js_index (originalEntries (priv_state this)) i)
                           (Some (keyAt (priv_entries this) i, v)))
            then finsert i (changed this h) else changed this h |-| {|i|})
    \<and> keyMapObjs h' = keyMapObjs h \<and> nextRef h' = nextRef h"
  proof (cases gone)
    case True
    obtain this3 h3 where r: "removeEntryAtIndex i this2 h = (this3, h3)"
      by (cases "removeEntryAtIndex i this2 h") blast
    from assms(1) body True r have res: "err = None" "this' = this3" "h' = h3" by simp_all
    note e = removeEntryAtIndex_effect[OF r]
    show ?thesis
      unfolding res using True e(1-4,6-9) s1 e(5) by simp
  next
    case False
    obtain this3 h3 where t: "trackChanges i this2 h = (this3, h3)"
      by (cases "trackChanges i this2 h") blast
    from assms(1) body False t have res: "err = None" "this' = this3" "h' = h3" by simp_all
    note e = trackChanges_effect[OF t]
    have d: "deleted this3 h3 = deleted this h"
      using e(2,7) s1 by (simp add: deleted_def)
    have "dirty i this2 h =
        (if i |\<in>| deleted this h then i < getLength (originalEntries (priv_state this))
         else \<not> entriesEqual (js_index (originalEntries (priv_state this)) i)
                           (Some (keyAt (priv_entries this) i, v)))"
      by (simp add: dirty_def s1 arr_def js_index_assign)
    then show ?thesis
      unfolding res using False e(1-4,6-9) s1 d e(5) by simp
  qed
  then show "err = None"
    and "priv_entries this' = arr" and "priv_state this' = priv_state this"
    and "length_env this' = length arr"
    and "hasChanges this' = Some (changed this' h' \<noteq> {||})"
    and "deleted this' h' = (if gone then finsert i (deleted this h) else deleted this h)"
    and "deletedLength this' = (if gone then fcard (deleted this' h') else deletedLength this)"
    and "changed this' h' =
           (if (if gone \<or> i |\<in>| deleted this h then i < getLength (originalEntries (priv_state this))
                else \<not> entriesEqual (js_index (originalEntries (priv_state this)) i)
                           (Some (keyAt (priv_entries this) i, v)))
            then finsert i (changed this h) else changed this h |-| {|i|})"
    and "keyMapObjs h' = keyMapObjs h" and "nextRef h' = nextRef h"
    by blast+
qed

lemma setKeyAtIndex_throws:
  assumes "setKeyAtIndex i k this h = (err, this', h')"
    and "None \<in> set (js_assign (priv_entries this) i (k, valueAt (priv_entries this) i))"
  shows "err = Some TypeError"
    and "priv_entries this' = priv_entries this" and "priv_state this' = priv_state this"
    and "hasChanges this' = hasChanges this"
    and "deleted this' h' = deleted this h |-| {|i|}"
    and "changedObjs h' = changedObjs h" and "keyMapObjs h' = keyMapObjs h"
    and "nextRef h' = nextRef h"
  using assms
  by (auto simp: setKeyAtIndex_def Let_def new_Map_hole setDeletedLength_def deleted_def)

lemma clash_neq: "clash i k this h = Some j \<Longrightarrow> j \<noteq> i"
  by (auto simp: clash_def split: option.splits if_splits)

lemma setKeyAtIndex_effect:
  assumes "setKeyAtIndex i k this h = (err, this', h')"
  defines "arr \<equiv> js_assign (priv_entries this) i (k, valueAt (priv_entries this) i)"
  defines "c1 \<equiv> (if entriesEqual (js_index (originalEntries (priv_state this)) i)
                        (Some (k, valueAt (priv_entries this) i))
                  then changed this h |-| {|i|} else finsert i (changed this h))"
  assumes ok: "None \<notin> set arr"
  shows "err = None"
    and "priv_entries this' = arr" and "priv_state this' = priv_state this"
    and "length_env this' = length arr"
    and "hasChanges this' = Some (changed this' h' \<noteq> {||})"
    and "deleted this' h' =
           (case clash i k this h of None \<Rightarrow> deleted this h |-| {|i|}
            | Some j \<Rightarrow> finsert j (deleted this h |-| {|i|}))"
    and "deletedLength this' = fcard (deleted this' h')"
    and "changed this' h' =
           (case clash i k this h of None \<Rightarrow> c1
            | Some j \<Rightarrow> if j < getLength (originalEntries (priv_state this)) then finsert j c1
                        else c1 |-| {|j|})"
    and "keyMap this' h' =
           (case clash i k this h of None \<Rightarrow> keyMap this h
            | Some j \<Rightarrow> obj_set (keyMap this h) k i)"
    and "nextRef h' = nextRef h"
proof -
  define d where "d = deletedIndices (priv_state this)"
  define h1 where "h1 = h\<lparr>deletedObjs := (deletedObjs h)(d := deletedObjs h d |-| {|i|})\<rparr>"
  define this1 where "this1 = setDeletedLength this h1"
  define this3 where "this3 = this1\<lparr>length_env := length arr, priv_entries := arr\<rparr>"
  obtain this4 h4 where t: "trackChanges i this3 h1 = (this4, h4)"
    by (cases "trackChanges i this3 h1") blast
  have s3: "priv_state this3 = priv_state this" "priv_entries this3 = arr"
    "length_env this3 = length arr" "deleted this3 h1 = deleted this h |-| {|i|}"
    "changed this3 h1 = changed this h" "deletedLength this3 = fcard (deleted this h |-| {|i|})"
    "keyMap this3 h1 = keyMap this h" "nextRef h1 = nextRef h"
    by (simp_all add: this3_def this1_def h1_def d_def setDeletedLength_def deleted_def changed_def keyMap_def)
  have dirty3: "dirty i this3 h1 =
      (\<not> entriesEqual (js_index (originalEntries (priv_state this)) i)
                        (Some (k, valueAt (priv_entries this) i)))"
    by (simp add: dirty_def s3 arr_def js_index_assign)
  note e = trackChanges_effect[OF t]
  have s4: "priv_state this4 = priv_state this" "priv_entries this4 = arr"
    "length_env this4 = length arr" "deleted this4 h4 = deleted this h |-| {|i|}"
    "changed this4 h4 = c1" "deletedLength this4 = fcard (deleted this h |-| {|i|})"
    "keyMap this4 h4 = keyMap this h" "nextRef h4 = nextRef h"
    "hasChanges this4 = Some (c1 \<noteq> {||})"
    using e s3 dirty3 by (auto simp: deleted_def keyMap_def c1_def)
  have len: "i < length arr"
    by (simp add: arr_def length_js_assign)
  have body: "setKeyAtIndex i k this h =
    (case clash i k this h of
       None \<Rightarrow> (None, this4, h4)
     | Some j \<Rightarrow>
           (let (this5, h5) = removeEntryAtIndex j this4 h4
            in (None, this5, h5\<lparr>keyMapObjs := (keyMapObjs h5)(uniqueKeyMap (priv_state this) :=
                  obj_set (keyMapObjs h5 (uniqueKeyMap (priv_state this))) k i)\<rparr>)))"
    using t len s4(1,7) ok
    unfolding setKeyAtIndex_def Let_def this3_def this1_def h1_def d_def arr_def keyMap_def clash_def
    by (simp add: setDeletedLength_def new_Map_dense split: option.splits)
  have "err = None \<and> priv_entries this' = arr \<and> priv_state this' = priv_state this \<and> length_env this' = length arr
    \<and> hasChanges this' = Some (changed this' h' \<noteq> {||})
    \<and> deleted this' h' =
           (case clash i k this h of None \<Rightarrow> deleted this h |-| {|i|}
            | Some j \<Rightarrow> finsert j (deleted this h |-| {|i|}))
    \<and> deletedLength this' = fcard (deleted this' h')
    \<and> changed this' h' =
           (case clash i k this h of None \<Rightarrow> c1
            | Some j \<Rightarrow> if j < getLength (originalEntries (priv_state this)) then finsert j c1
                        else c1 |-| {|j|})
    \<and> keyMap this' h' =
           (case clash i k this h of None \<Rightarrow> keyMap this h
            | Some j \<Rightarrow> obj_set (keyMap this h) k i)
    \<and> nextRef h' = nextRef h"
  proof (cases "clash i k this h")
    case None
    then have "(err, this', h') = (None, this4, h4)"
      using assms(1) body by simp
    then show ?thesis
      using None s4 by simp
  next
    case (Some j)
    obtain this5 h5 where r: "removeEntryAtIndex j this4 h4 = (this5, h5)"
      by (cases "removeEntryAtIndex j this4 h4") blast
    note f = removeEntryAtIndex_effect[OF r]
    have res: "err = None" "this' = this5"
      "h' = h5\<lparr>keyMapObjs := (keyMapObjs h5)(uniqueKeyMap (priv_state this) :=
                  obj_set (keyMapObjs h5 (uniqueKeyMap (priv_state this))) k i)\<rparr>"
      using assms(1) body Some r by simp_all
    have h55: "deleted this5 h' = deleted this5 h5" "changed this5 h' = changed this5 h5"
      "nextRef h' = nextRef h5"
      by (simp_all add: res(3) deleted_def changed_def)
    have km: "keyMap this5 h' = obj_set (keyMap this h) k i"
      using f(2,8) s4(1,7) by (simp add: res(3) keyMap_def)
    show ?thesis
      unfolding res(1,2) h55 km Some
      using f s4 by simp
  qed
  then show "err = None"
    and "priv_entries this' = arr" and "priv_state this' = priv_state this"
    and "length_env this' = length arr"
    and "hasChanges this' = Some (changed this' h' \<noteq> {||})"
    and "deleted this' h' =
           (case clash i k this h of None \<Rightarrow> deleted this h |-| {|i|}
            | Some j \<Rightarrow> finsert j (deleted this h |-| {|i|}))"
    and "deletedLength this' = fcard (deleted this' h')"
    and "changed this' h' =
           (case clash i k this h of None \<Rightarrow> c1
            | Some j \<Rightarrow> if j < getLength (originalEntries (priv_state this)) then finsert j c1
                        else c1 |-| {|j|})"
    and "keyMap this' h' =
           (case clash i k this h of None \<Rightarrow> keyMap this h
            | Some j \<Rightarrow> obj_set (keyMap this h) k i)"
    and "nextRef h' = nextRef h"
    by blast+
qed

section \<open>Enumeration\<close>

lemma mapDeleted_eq:
  "mapDeleted fn this h =
     map (\<lambda>(index, entry). fn entry index)
       (filter (\<lambda>(index, entry). index |\<in>| deleted this h) (present (priv_entries this)))"
proof -
  have f: "(\<lambda>(index, entry) prev.
             if index |\<notin>| deleted this h then prev else prev @ [fn entry index])
     = (\<lambda>x prev. if (case x of (index, entry) \<Rightarrow> index |\<notin>| deleted this h) then prev
                   else prev @ [(\<lambda>(index, entry). fn entry index) x])"
    by (auto simp: fun_eq_iff)
  have g: "(\<lambda>x. \<not> (case x of (index, entry) \<Rightarrow> index |\<notin>| deleted this h))
       = (\<lambda>(index, entry). index |\<in>| deleted this h)"
    by (auto simp: fun_eq_iff)
  show ?thesis
    unfolding mapDeleted_def f fold_snoc_filter g by simp
qed

lemma map_env_eq:
  "map_env fn this h =
     map (\<lambda>(index, entry). fn entry index)
       (filter (\<lambda>(index, entry). index |\<notin>| deleted this h \<and>
                 (filterText (priv_state this) = [] \<or> fz (fst entry) (filterText (priv_state this))))
          (present (priv_entries this)))
     @ [fn ([], []) (length_env this)]"
proof -
  let ?ft = "filterText (priv_state this)"
  have f: "(\<lambda>(index, entry) prev.
                if index |\<in>| deleted this h then prev
                else if ?ft \<noteq> [] \<and> \<not> fz (fst entry) ?ft then prev
                else prev @ [fn entry index])
        = (\<lambda>x prev. if (case x of (index, entry) \<Rightarrow> index |\<in>| deleted this h \<or> (?ft \<noteq> [] \<and> \<not> fz (fst entry) ?ft))
              then prev else prev @ [(\<lambda>(index, entry). fn entry index) x])"
    by (auto simp: fun_eq_iff)
  have g: "(\<lambda>x. \<not> (case x of (index, entry) \<Rightarrow> index |\<in>| deleted this h \<or> (?ft \<noteq> [] \<and> \<not> fz (fst entry) ?ft)))
       = (\<lambda>(index, entry). index |\<notin>| deleted this h \<and> (?ft = [] \<or> fz (fst entry) ?ft))"
    by (auto simp: fun_eq_iff)
  show ?thesis
    unfolding map_env_def Let_def f fold_snoc_filter g by simp
qed

lemma map_env_indices:
  "set (map_env (\<lambda>e idx. idx) this h) =
     {i. i |\<notin>| deleted this h \<and> (\<exists>e. js_index (priv_entries this) i = Some e \<and>
          (filterText (priv_state this) = [] \<or> fz (fst e) (filterText (priv_state this))))}
     \<union> {length_env this}"
  by (auto simp: map_env_eq present_set image_iff)

lemma mapDeleted_indices:
  "set (mapDeleted (\<lambda>e idx. idx) this h) =
     {i. i |\<in>| deleted this h \<and> js_index (priv_entries this) i \<noteq> None}"
  by (auto simp: mapDeleted_eq present_set image_iff)

text \<open>
  C7. \<open>map(fn)\<close> applies \<open>fn\<close>, in backing order, to exactly the entries that are not
  deleted and whose key matches the filter text (every entry that is not deleted when the
  filter text is empty), and then to one synthetic pair of two empty strings at the index
  equal to the session's \<open>length\<close>, whatever the filter. The entries visited are those the
  backing array holds, in increasing index order.
\<close>

theorem map_enumeration:
  "map_env fn this h =
     map (\<lambda>(index, entry). fn entry index)
       (filter (\<lambda>(index, entry). index |\<notin>| deleted this h \<and>
                 (filterText (priv_state this) = [] \<or> fz (fst entry) (filterText (priv_state this))))
          (present (priv_entries this)))
     @ [fn ([], []) (length_env this)] \<and>
   sorted_wrt (<) (map fst (present (priv_entries this))) \<and>
   set (present (priv_entries this)) = {(index, entry). js_index (priv_entries this) index = Some entry}"
proof -
  have "set (present (priv_entries this)) = {(index, entry). js_index (priv_entries this) index = Some entry}"
    by (auto simp: present_set)
  then show ?thesis using present_sorted map_env_eq by blast
qed

section \<open>Key uniqueness\<close>

text \<open>
  C2. The claim: after any sequence of \<open>setKeyAtIndex\<close> calls, \<open>entries()\<close> has no two pairs
  with the same key. The code records in \<open>uniqueKeyMap\<close> only the baseline's keys and the
  keys of resolved collisions, so a key typed into two rows that is new to the map is not
  detected: from the baseline A=1, B=2, setting the key of row 0 and then of row 1 to C
  leaves two pairs with the key C in \<open>entries()\<close>.
\<close>

theorem duplicate_keys_after_setKeyAtIndex:
  "(let (s0, h0) = new_EnvState [Some (''A'', ''1''), Some (''B'', ''2'')] None emptyHeap;
        (e1, s1, h1) = setKeyAtIndex 0 ''C'' s0 h0;
        (e2, s2, h2) = setKeyAtIndex 1 ''C'' s1 h1
    in e1 = None \<and> e2 = None \<and>
       entries s2 h2 = [Some (''C'', ''1''), Some (''C'', ''2'')] \<and>
       \<not> distinct (map fst (toPairs (entries s2 h2))))"
  by code_simp

section \<open>Copies\<close>

text \<open>
  C3. The claim: a mutation of \<open>s.dup()\<close> leaves what \<open>s\<close> shows unchanged. \<open>dup\<close> copies
  the references to \<open>deletedIndices\<close>, \<open>changedIndices\<close> and \<open>uniqueKeyMap\<close>, so the copy
  and the original share them: deleting row 0 in the copy changes the original's
  \<open>entries()\<close>, \<open>map\<close> and \<open>mapDeleted\<close>.
\<close>

theorem dup_shares_tracking:
  "(let (s, h0) = new_EnvState [Some (''A'', ''1'')] None emptyHeap;
        (s2, h1) = dup s h0;
        (s3, h2) = removeEntryAtIndex 0 s2 h1
    in entries s h1 = [Some (''A'', ''1'')] \<and> entries s h2 = [] \<and>
       map_env (\<lambda>e i. i) s h1 = [0, 1] \<and> map_env (\<lambda>e i. i) s h2 = [1] \<and>
       mapDeleted (\<lambda>e i. i) s h1 = [] \<and> mapDeleted (\<lambda>e i. i) s h2 = [0])"
  by code_simp

section \<open>Tombstones beyond the baseline\<close>

text \<open>
  C10, as the claim states it: deleting the synthetic new-entry row records a tombstone
  that \<open>mapDeleted\<close> enumerates. It does not: \<open>mapDeleted\<close> walks the backing array, and
  the synthetic row is not in it.
\<close>

theorem tombstone_counterexample:
  "(let (s0, h0) = new_EnvState [Some (''A'', ''1'')] None emptyHeap;
        (s1, h1) = removeEntryAtIndex 1 s0 h0
    in 1 |\<in>| deleted s1 h1 \<and> deletedLength s1 = 1 \<and> hasChanges s1 = Some False \<and>
       1 \<notin> set (mapDeleted (\<lambda>e i. i) s1 h1))"
  by code_simp

text \<open>
  C10, amended. Deleting an index at or beyond the baseline's length records a tombstone:
  the index joins \<open>deletedIndices\<close> and \<open>deletedLength\<close> is the new size of that set, which
  is positive. The index leaves \<open>changedIndices\<close>, and \<open>hasChanges\<close> says whether another
  index is still changed, so a session can have \<open>hasChanges\<close> false and a positive
  \<open>deletedLength\<close>. \<open>mapDeleted\<close> enumerates the index exactly when the backing array
  holds an entry there.
\<close>

theorem tombstone_beyond_baseline:
  "length (originalEntries (priv_state this)) \<le> i \<Longrightarrow>
   (let (this', h') = removeEntryAtIndex i this h
    in deleted this' h' = finsert i (deleted this h) \<and>
       deletedLength this' = fcard (finsert i (deleted this h)) \<and>
       0 < deletedLength this' \<and>
       changed this' h' = changed this h |-| {|i|} \<and>
       hasChanges this' = Some (changed this h |-| {|i|} \<noteq> {||}) \<and>
       (i \<in> set (mapDeleted (\<lambda>e index. index) this' h') \<longleftrightarrow>
          js_index (priv_entries this) i \<noteq> None))"
proof -
  assume beyond: "length (originalEntries (priv_state this)) \<le> i"
  obtain this' h' where r: "removeEntryAtIndex i this h = (this', h')"
    by (cases "removeEntryAtIndex i this h") blast
  note e = removeEntryAtIndex_effect[OF r]
  have c: "changed this' h' = changed this h |-| {|i|}"
    using beyond getLength_le[of "originalEntries (priv_state this)"] by (simp add: e(7))
  have n: "deletedLength this' = fcard (finsert i (deleted this h))"
    by (simp add: e(4) e(6))
  have "finsert i (deleted this h) \<noteq> {||}" by simp
  then have p: "0 < deletedLength this'"
    unfolding n fcard_pos .
  have m: "i \<in> set (mapDeleted (\<lambda>e index. index) this' h') \<longleftrightarrow>
          js_index (priv_entries this) i \<noteq> None"
    by (simp add: mapDeleted_indices e(1) e(6))
  show ?thesis
    unfolding r prod.case Let_def
    using e(5) e(6) c n p m by simp
qed

theorem tombstone_beyond_baseline_witness:
  "(let (s0, h0) = new_EnvState [Some (''A'', ''1'')] None emptyHeap;
        (s1, h1) = removeEntryAtIndex (Suc 0) s0 h0
    in length (originalEntries (priv_state s0)) \<le> Suc 0 \<and>
       deleted s1 h1 = {|Suc 0|} \<and> 0 < deletedLength s1 \<and> hasChanges s1 = Some False \<and>
       Suc 0 \<notin> set (mapDeleted (\<lambda>e index. index) s1 h1))"
proof -
  obtain s0 h0 where n: "new_EnvState [Some (''A'', ''1'')] None emptyHeap = (s0, h0)"
    by (cases "new_EnvState [Some (''A'', ''1'')] None emptyHeap") blast
  obtain s1 h1 where a: "removeEntryAtIndex (Suc 0) s0 h0 = (s1, h1)"
    by (cases "removeEntryAtIndex (Suc 0) s0 h0") blast
  have k: "length (originalEntries (priv_state s0)) \<le> Suc 0" "deleted s0 h0 = {||}"
    "changed s0 h0 = {||}" "js_index (priv_entries s0) (Suc 0) = None"
    using n by (auto simp: new_EnvState_def setDeletedLength_def Let_def js_index_def deleted_def changed_def)
  show ?thesis
    using tombstone_beyond_baseline[OF k(1), of h0] k
    by (simp add: n a Let_def)
qed

section \<open>Setting a value\<close>

lemma keyAt_inside:
  "i < length arr \<Longrightarrow> keyAt arr i = (case arr ! i of None \<Rightarrow> [] | Some e \<Rightarrow> fst e)"
  by (simp add: keyAt_def js_index_def)

lemma keyAt_end: "keyAt arr (length arr) = []"
  by (simp add: keyAt_def js_index_def)

lemma valueAt_inside:
  "i < length arr \<Longrightarrow> valueAt arr i = (case arr ! i of None \<Rightarrow> [] | Some e \<Rightarrow> snd e)"
  by (simp add: valueAt_def js_index_def)

lemma valueAt_end: "valueAt arr (length arr) = []"
  by (simp add: valueAt_def js_index_def)

lemma entries_eq_without:
  "i |\<in>| deleted this h \<Longrightarrow>
   entries this h =
     map (Some \<circ> snd)
       (filter (\<lambda>(index, entry). index \<noteq> i \<and> index |\<notin>| deleted this h \<and>
                  fst entry \<noteq> [] \<and> snd entry \<noteq> [])
          (present (priv_entries this)))"
  unfolding entries_eq
  by (rule arg_cong[where f = "map (Some \<circ> snd)"], rule filter_cong) auto

text \<open>
  C6, as the claim states it, for every index. Beyond the new-entry row the write leaves a
  hole in the copy of the array, and the constructor of the map throws a TypeError: no
  value is rewritten. The backing array and \<open>entries()\<close> are as before, \<open>length\<close> has
  already been assigned, and no status is recomputed.
\<close>

theorem setValueAtIndex_counterexample:
  "(let (s0, h0) = new_EnvState [Some (''A'', ''1'')] None emptyHeap;
        (err, s1, h1) = setValueAtIndex 2 ''x'' s0 h0
    in err = Some TypeError \<and> priv_entries s1 = [Some (''A'', ''1'')] \<and>
       js_index (priv_entries s1) 2 = None \<and> length_env s1 = 3 \<and>
       entries s1 h1 = [Some (''A'', ''1'')] \<and>
       hasChanges s1 = None \<and> changed s1 h1 = {||})"
  by code_simp

text \<open>
  C6, amended. Let the backing array have no hole, as every array of a map, and let \<open>i\<close>
  be one of its indices or its length (the new-entry row). \<open>setValueAtIndex(i, value)\<close>
  returns, and the backing array is the former one with the value at \<open>i\<close> rewritten and
  the key kept (at the length: with the pair of the empty key and the value appended);
  \<open>length\<close> follows the array. When the resulting pair is two empty strings, \<open>i\<close> becomes
  deleted: \<open>map\<close> does not visit it and \<open>entries()\<close> is computed from the other indices.
  Otherwise the deleted indices stay as they are. The changed status of \<open>i\<close> is recomputed
  against the baseline (a deleted index is changed when it is below the baseline's
  \<open>getLength()\<close>, another one when its pair is not the baseline's pair at \<open>i\<close>), that of
  the other indices is kept, and \<open>hasChanges\<close> says whether any index is changed.
\<close>

theorem setValueAtIndex_rewrites_value:
  assumes dense: "None \<notin> set (priv_entries this)" and range: "i \<le> length (priv_entries this)"
  shows
  "(let cur = priv_entries this;
        orig = originalEntries (priv_state this);
        k = (if i < length cur then (case cur ! i of None \<Rightarrow> [] | Some e \<Rightarrow> fst e) else []);
        (err, this', h') = setValueAtIndex i v this h
    in err = None \<and>
       priv_entries this' = (if i < length cur then cur[i := Some (k, v)] else cur @ [Some (k, v)]) \<and>
       length_env this' = length (priv_entries this') \<and>
       changed this' h' |-| {|i|} = changed this h |-| {|i|} \<and>
       hasChanges this' = Some (changed this' h' \<noteq> {||}) \<and>
       (if k = [] \<and> v = [] then
          deleted this' h' = finsert i (deleted this h) \<and>
          deletedLength this' = fcard (finsert i (deleted this h)) \<and>
          (i |\<in>| changed this' h' \<longleftrightarrow> i < getLength orig) \<and>
          i \<notin> set (map_env (\<lambda>e index. index) this' h') \<and>
          entries this' h' =
            map (Some \<circ> snd)
              (filter (\<lambda>(index, entry). index \<noteq> i \<and> index |\<notin>| deleted this' h' \<and>
                         fst entry \<noteq> [] \<and> snd entry \<noteq> [])
                 (present (priv_entries this')))
        else
          deleted this' h' = deleted this h \<and>
          deletedLength this' = deletedLength this \<and>
          (i |\<in>| changed this' h' \<longleftrightarrow>
             (if i |\<in>| deleted this h then i < getLength orig
              else \<not> (i < length orig \<and> orig ! i = Some (k, v))))))"
proof -
  let ?cur = "priv_entries this"
  let ?orig = "originalEntries (priv_state this)"
  let ?k = "if i < length ?cur then (case ?cur ! i of None \<Rightarrow> [] | Some e \<Rightarrow> fst e) else []"
  obtain err this' h' where s: "setValueAtIndex i v this h = (err, this', h')"
    by (cases "setValueAtIndex i v this h") auto
  have k: "keyAt ?cur i = ?k"
    using range by (cases "i < length ?cur") (simp_all add: keyAt_inside keyAt_end)
  have arr: "js_assign ?cur i (?k, v) =
      (if i < length ?cur then ?cur[i := Some (?k, v)] else ?cur @ [Some (?k, v)])"
    using range by (cases "i < length ?cur") (simp_all add: js_assign_inside js_assign_end)
  have ok: "None \<notin> set (js_assign ?cur i (keyAt ?cur i, v))"
    by (rule js_assign_dense[OF dense range])
  note e = setValueAtIndex_effect[OF s ok, unfolded k]
  have a: "priv_entries this' =
      (if i < length ?cur then ?cur[i := Some (?k, v)] else ?cur @ [Some (?k, v)])"
    unfolding e(2) arr ..
  have l: "length_env this' = length (priv_entries this')"
    by (simp only: e(2) e(4))
  have d: "changed this' h' |-| {|i|} = changed this h |-| {|i|}"
    unfolding e(8) by auto
  have eq: "entriesEqual (js_index ?orig i) (Some (?k, v)) \<longleftrightarrow>
      (i < length ?orig \<and> ?orig ! i = Some (?k, v))"
    by (cases "js_index ?orig i") (auto simp: js_index_def prod_eq_iff split: if_splits)
  have f: "deleted this' h' = finsert i (deleted this h) \<and>
          deletedLength this' = fcard (finsert i (deleted this h)) \<and>
          (i |\<in>| changed this' h' \<longleftrightarrow> i < getLength ?orig) \<and>
          i \<notin> set (map_env (\<lambda>e index. index) this' h') \<and>
          entries this' h' =
            map (Some \<circ> snd)
              (filter (\<lambda>(index, entry). index \<noteq> i \<and> index |\<notin>| deleted this' h' \<and>
                         fst entry \<noteq> [] \<and> snd entry \<noteq> [])
                 (present (priv_entries this')))"
    if g: "?k = [] \<and> v = []"
  proof -
    have del: "deleted this' h' = finsert i (deleted this h)"
      using g by (simp add: e(6))
    then have mem: "i |\<in>| deleted this' h'" by simp
    have dl: "deletedLength this' = fcard (finsert i (deleted this h))"
      using g del by (simp add: e(7))
    have ch: "i |\<in>| changed this' h' \<longleftrightarrow> i < getLength ?orig"
      using g by (simp add: e(8))
    have "i < length_env this'"
      by (simp add: e(4) length_js_assign)
    then have "i \<notin> set (map_env (\<lambda>e index. index) this' h')"
      using mem by (auto simp: map_env_indices)
    then show ?thesis
      using del dl ch entries_eq_without[OF mem] by blast
  qed
  have g: "deleted this' h' = deleted this h \<and>
          deletedLength this' = deletedLength this \<and>
          (i |\<in>| changed this' h' \<longleftrightarrow>
             (if i |\<in>| deleted this h then i < getLength ?orig
              else \<not> (i < length ?orig \<and> ?orig ! i = Some (?k, v))))"
    if n: "\<not> (?k = [] \<and> v = [])"
  proof -
    have ng: "\<not> (v = [] \<and> ?k = [])" using n by blast
    have "deleted this' h' = deleted this h" "deletedLength this' = deletedLength this"
      using ng by (simp_all only: e(6) e(7) if_False)
    moreover have "i |\<in>| changed this' h' \<longleftrightarrow>
             (if i |\<in>| deleted this h then i < getLength ?orig
              else \<not> (i < length ?orig \<and> ?orig ! i = Some (?k, v)))"
      unfolding e(8) eq using ng by auto
    ultimately show ?thesis by blast
  qed
  have "err = None \<and>
       priv_entries this' = (if i < length ?cur then ?cur[i := Some (?k, v)] else ?cur @ [Some (?k, v)]) \<and>
       length_env this' = length (priv_entries this') \<and>
       changed this' h' |-| {|i|} = changed this h |-| {|i|} \<and>
       hasChanges this' = Some (changed this' h' \<noteq> {||}) \<and>
       (if ?k = [] \<and> v = [] then
          deleted this' h' = finsert i (deleted this h) \<and>
          deletedLength this' = fcard (finsert i (deleted this h)) \<and>
          (i |\<in>| changed this' h' \<longleftrightarrow> i < getLength ?orig) \<and>
          i \<notin> set (map_env (\<lambda>e index. index) this' h') \<and>
          entries this' h' =
            map (Some \<circ> snd)
              (filter (\<lambda>(index, entry). index \<noteq> i \<and> index |\<notin>| deleted this' h' \<and>
                         fst entry \<noteq> [] \<and> snd entry \<noteq> [])
                 (present (priv_entries this')))
        else
          deleted this' h' = deleted this h \<and>
          deletedLength this' = deletedLength this \<and>
          (i |\<in>| changed this' h' \<longleftrightarrow>
             (if i |\<in>| deleted this h then i < getLength ?orig
              else \<not> (i < length ?orig \<and> ?orig ! i = Some (?k, v)))))"
    using e(1) a l d e(5) f g by (cases "?k = [] \<and> v = []") (simp_all only: if_True if_False simp_thms)
  then show ?thesis
    unfolding Let_def s prod.case .
qed

theorem setValueAtIndex_rewrites_value_witness:
  "(let (s0, h0) = new_EnvState [Some (''A'', ''1''), Some (''B'', ''2'')] None emptyHeap;
        (e1, s1, h1) = setValueAtIndex 0 ''9'' s0 h0;
        (e2, s2, h2) = setValueAtIndex 2 [] s1 h1
    in None \<notin> set (priv_entries s0) \<and> 0 \<le> length (priv_entries s0) \<and>
       e1 = None \<and> priv_entries s1 = [Some (''A'', ''9''), Some (''B'', ''2'')] \<and>
       changed s1 h1 = {|0|} \<and> deleted s1 h1 = {||} \<and> hasChanges s1 = Some True \<and>
       None \<notin> set (priv_entries s1) \<and> 2 \<le> length (priv_entries s1) \<and>
       e2 = None \<and>
       priv_entries s2 = [Some (''A'', ''9''), Some (''B'', ''2''), Some ([], [])] \<and>
       deleted s2 h2 = {|2|} \<and> 2 \<notin> set (map_env (\<lambda>e index. index) s2 h2) \<and>
       changed s2 h2 = {|0|})"
proof -
  let ?b = "[Some (''A'', ''1''), Some (''B'', ''2'')]"
  obtain s0 h0 where n: "new_EnvState ?b None emptyHeap = (s0, h0)"
    by (cases "new_EnvState ?b None emptyHeap") blast
  obtain e1 s1 h1 where a: "setValueAtIndex 0 ''9'' s0 h0 = (e1, s1, h1)"
    by (cases "setValueAtIndex 0 ''9'' s0 h0") auto
  obtain e2 s2 h2 where b: "setValueAtIndex 2 [] s1 h1 = (e2, s2, h2)"
    by (cases "setValueAtIndex 2 [] s1 h1") auto
  have s0: "priv_entries s0 = ?b" "originalEntries (priv_state s0) = ?b"
    "deleted s0 h0 = {||}" "changed s0 h0 = {||}"
    using n by (auto simp: new_EnvState_def setDeletedLength_def Let_def deleted_def changed_def)
  have d0: "None \<notin> set (priv_entries s0)" and r0: "0 \<le> length (priv_entries s0)"
    by (simp_all add: s0)
  from setValueAtIndex_rewrites_value[OF d0 r0, of "''9''" h0]
  have t1: "e1 = None" "priv_entries s1 = [Some (''A'', ''9''), Some (''B'', ''2'')]"
    "changed s1 h1 |-| {|0|} = {||}" "hasChanges s1 = Some (changed s1 h1 \<noteq> {||})"
    "deleted s1 h1 = {||}" "0 |\<in>| changed s1 h1"
    by (simp_all add: Let_def a s0)
  have c1: "changed s1 h1 = {|0|}"
    using t1(3,6) by auto
  have o1: "originalEntries (priv_state s1) = ?b"
    using setValueAtIndex_effect(3)[OF a] d0 by (simp add: s0 js_assign_def)
  have d1: "None \<notin> set (priv_entries s1)" and r1: "2 \<le> length (priv_entries s1)"
    by (simp_all add: t1(2))
  from setValueAtIndex_rewrites_value[OF d1 r1, of "[]" h1]
  have t2: "e2 = None"
    "priv_entries s2 = [Some (''A'', ''9''), Some (''B'', ''2''), Some ([], [])]"
    "changed s2 h2 |-| {|2|} = {|0|}" "deleted s2 h2 = {|2|}"
    "2 \<notin> set (map_env (\<lambda>e index. index) s2 h2)"
    "(2 |\<in>| changed s2 h2) = (2 < getLength ?b)"
    by (simp_all add: Let_def b t1(2,5) c1 o1)
  have "getLength ?b = 2" by code_simp
  with t2(3,6) have c2: "changed s2 h2 = {|0|}" by auto
  show ?thesis
    using d0 t1(1,2,4,5) c1 d1 r1 t2(1,2,4,5) c2 by (simp add: n a b)
qed

text \<open>
  Beyond the new-entry row the write leaves a hole and the constructor of the map throws:
  \<open>length\<close> has grown, the backing array and the tracking objects are as before.
\<close>

lemma setValueAtIndex_beyond_end:
  assumes "length (priv_entries this) < i" and "setValueAtIndex i v this h = (err, this', h')"
  shows "err = Some TypeError \<and> priv_entries this' = priv_entries this \<and> h' = h \<and>
         length_env this' = Suc i"
  using setValueAtIndex_throws[OF assms(2) js_assign_hole[OF assms(1)]] assms(1)
  by (simp add: length_js_assign)

section \<open>Deleting and restoring\<close>

text \<open>
  C8. Let the backing array have no hole and let \<open>i\<close> be one of its indices or its length.
  After \<open>removeEntryAtIndex(i)\<close> followed by \<open>setKeyAtIndex(i, k)\<close>, which returns, index \<open>i\<close>
  is not deleted, and the backing array is the former one with the key at \<open>i\<close> replaced
  by \<open>k\<close> and the value at \<open>i\<close> as it was before the deletion (at the length: with the pair of
  \<open>k\<close> and the empty value appended).
\<close>

theorem deletion_reversible:
  assumes dense: "None \<notin> set (priv_entries this)" and range: "i \<le> length (priv_entries this)"
  shows
  "(let cur = priv_entries this;
        w = (if i < length cur then (case cur ! i of None \<Rightarrow> [] | Some e \<Rightarrow> snd e) else []);
        (this1, h1) = removeEntryAtIndex i this h;
        (err, this2, h2) = setKeyAtIndex i k this1 h1
    in i |\<in>| deleted this1 h1 \<and> priv_entries this1 = cur \<and>
       err = None \<and> i |\<notin>| deleted this2 h2 \<and>
       priv_entries this2 = (if i < length cur then cur[i := Some (k, w)] else cur @ [Some (k, w)]) \<and>
       length_env this2 = length (priv_entries this2))"
proof -
  let ?cur = "priv_entries this"
  let ?w = "if i < length ?cur then (case ?cur ! i of None \<Rightarrow> [] | Some e \<Rightarrow> snd e) else []"
  obtain this1 h1 where r: "removeEntryAtIndex i this h = (this1, h1)"
    by (cases "removeEntryAtIndex i this h") blast
  obtain err this2 h2 where s: "setKeyAtIndex i k this1 h1 = (err, this2, h2)"
    by (cases "setKeyAtIndex i k this1 h1") auto
  note e = removeEntryAtIndex_effect[OF r]
  have w: "valueAt ?cur i = ?w"
    using range by (cases "i < length ?cur") (simp_all add: valueAt_inside valueAt_end)
  have arr: "js_assign ?cur i (k, ?w) =
      (if i < length ?cur then ?cur[i := Some (k, ?w)] else ?cur @ [Some (k, ?w)])"
    using range by (cases "i < length ?cur") (simp_all add: js_assign_inside js_assign_end)
  have ok: "None \<notin> set (js_assign (priv_entries this1) i (k, valueAt (priv_entries this1) i))"
    unfolding e(1) by (rule js_assign_dense[OF dense range])
  note f = setKeyAtIndex_effect[OF s ok, unfolded e(1) w]
  have "i |\<notin>| deleted this2 h2"
    unfolding f(6) using clash_neq[of i k this1 h1]
    by (cases "clash i k this1 h1") auto
  moreover have "priv_entries this2 =
      (if i < length ?cur then ?cur[i := Some (k, ?w)] else ?cur @ [Some (k, ?w)])"
    unfolding f(2) arr ..
  moreover have "length_env this2 = length (priv_entries this2)"
    by (simp only: f(2) f(4))
  moreover have "i |\<in>| deleted this1 h1" by (simp add: e(6))
  ultimately show ?thesis
    unfolding Let_def r s prod.case using f(1) e(1) by simp
qed

theorem deletion_reversible_witness:
  "(let (s0, h0) = new_EnvState [Some (''A'', ''1''), Some (''B'', ''2'')] None emptyHeap;
        (s1, h1) = removeEntryAtIndex 0 s0 h0;
        (err, s2, h2) = setKeyAtIndex 0 ''Z'' s1 h1
    in None \<notin> set (priv_entries s0) \<and> 0 \<le> length (priv_entries s0) \<and>
       0 |\<in>| deleted s1 h1 \<and> err = None \<and> 0 |\<notin>| deleted s2 h2 \<and>
       priv_entries s2 = [Some (''Z'', ''1''), Some (''B'', ''2'')])"
proof -
  let ?b = "[Some (''A'', ''1''), Some (''B'', ''2'')]"
  obtain s0 h0 where n: "new_EnvState ?b None emptyHeap = (s0, h0)"
    by (cases "new_EnvState ?b None emptyHeap") blast
  obtain s1 h1 where a: "removeEntryAtIndex 0 s0 h0 = (s1, h1)"
    by (cases "removeEntryAtIndex 0 s0 h0") blast
  obtain err s2 h2 where b: "setKeyAtIndex 0 ''Z'' s1 h1 = (err, s2, h2)"
    by (cases "setKeyAtIndex 0 ''Z'' s1 h1") auto
  have s0: "priv_entries s0 = ?b"
    using n by (auto simp: new_EnvState_def setDeletedLength_def Let_def)
  have d0: "None \<notin> set (priv_entries s0)" and r0: "0 \<le> length (priv_entries s0)"
    by (simp_all add: s0)
  from deletion_reversible[OF d0 r0, of h0 "''Z''"]
  have "0 |\<in>| deleted s1 h1 \<and> err = None \<and> 0 |\<notin>| deleted s2 h2 \<and>
       priv_entries s2 = [Some (''Z'', ''1''), Some (''B'', ''2'')]"
    by (simp add: Let_def a b s0)
  then show ?thesis
    using d0 by (simp add: n a b)
qed

section \<open>Applying a diff to a session\<close>

lemma findIndex_Some:
  "findIndex k arr = Inr (Some i) \<Longrightarrow>
     i < length arr \<and> (\<exists>v. js_index arr i = Some (k, v)) \<and>
     (\<forall>j < i. \<exists>e. js_index arr j = Some e \<and> fst e \<noteq> k)"
proof (induction k arr arbitrary: i rule: findIndex.induct)
  case (1 k)
  then show ?case by simp
next
  case (2 k arr)
  then show ?case by simp
next
  case (3 k e arr)
  show ?case
  proof (cases "fst e = k")
    case True
    with 3(2) show ?thesis by (cases e) (auto simp: js_index_def)
  next
    case False
    with 3(2) obtain i' where i': "findIndex k arr = Inr (Some i')" "i = Suc i'"
      by (auto split: sum.splits option.splits)
    from 3(1)[OF False i'(1)] have ih: "i' < length arr" "\<exists>v. js_index arr i' = Some (k, v)"
      "\<forall>j < i'. \<exists>e. js_index arr j = Some e \<and> fst e \<noteq> k" by auto
    have "\<exists>e'. js_index (Some e # arr) j = Some e' \<and> fst e' \<noteq> k" if "j < i" for j
    proof (cases j)
      case 0
      then show ?thesis using False by (simp add: js_index_def)
    next
      case (Suc j')
      then have "j' < i'" using that i'(2) by simp
      with ih(3) ih(1) Suc show ?thesis by (auto simp: js_index_def)
    qed
    then show ?thesis
      using ih(1,2) i'(2) by (auto simp: js_index_def)
  qed
qed

lemma findIndex_None:
  "findIndex k arr = Inr None \<Longrightarrow> (\<forall>j < length arr. \<exists>e. js_index arr j = Some e \<and> fst e \<noteq> k)"
proof (induction k arr rule: findIndex.induct)
  case (1 k)
  then show ?case by simp
next
  case (2 k arr)
  then show ?case by simp
next
  case (3 k e arr)
  show ?case
  proof (cases "fst e = k")
    case True
    with 3(2) show ?thesis by simp
  next
    case False
    with 3(2) have "findIndex k arr = Inr None"
      by (auto split: sum.splits option.splits)
    from 3(1)[OF False this] have ih: "\<forall>j < length arr. \<exists>e. js_index arr j = Some e \<and> fst e \<noteq> k" .
    have "\<exists>e'. js_index (Some e # arr) j = Some e' \<and> fst e' \<noteq> k" if "j < length (Some e # arr)" for j
    proof (cases j)
      case 0
      then show ?thesis using False by (simp add: js_index_def)
    next
      case (Suc j')
      with ih that show ?thesis by (auto simp: js_index_def)
    qed
    then show ?thesis by blast
  qed
qed

lemma findIndex_dense: "None \<notin> set arr \<Longrightarrow> \<exists>found. findIndex k arr = Inr found"
proof (induction k arr rule: findIndex.induct)
  case (1 k)
  show ?case by simp
next
  case (2 k arr)
  then show ?case by simp
next
  case (3 k e arr)
  then show ?case
    by (cases "fst e = k") (auto split: sum.splits option.splits)
qed

lemma findIndex_slot:
  assumes dense: "None \<notin> set arr" and slot: "slot_for arr k index"
  shows "findIndex k arr = Inr (if index < length arr then Some index else None)"
proof -
  obtain found where f: "findIndex k arr = Inr found"
    using findIndex_dense[OF dense] by blast
  show ?thesis
  proof (cases found)
    case None
    from findIndex_None[OF f[unfolded None]]
    have "\<forall>j < length arr. \<forall>w. arr ! j \<noteq> Some (k, w)"
      by (fastforce simp: js_index_def)
    then have "index = length arr"
      using slot by (auto simp: slot_for_def)
    then show ?thesis using f None by simp
  next
    case (Some i)
    from findIndex_Some[OF f[unfolded Some]]
    have i: "i < length arr" "\<exists>w. arr ! i = Some (k, w)"
      and before: "\<forall>j < i. \<forall>w. arr ! j \<noteq> Some (k, w)"
      by (fastforce simp: js_index_def)+
    have ex: "\<exists>j < length arr. \<exists>w. arr ! j = Some (k, w)"
      using i by blast
    have s: "index < length arr" "\<exists>w. arr ! index = Some (k, w)"
      "\<forall>j < index. \<forall>w. arr ! j \<noteq> Some (k, w)"
      using slot unfolding slot_for_def if_P[OF ex] by blast+
    have "\<not> index < i" using before s(2) by blast
    moreover have "\<not> i < index" using s(3) i(2) by blast
    ultimately have "index = i" by simp
    then show ?thesis using f Some i(1) by simp
  qed
qed

lemma slot_for_range: "slot_for arr k index \<Longrightarrow> index \<le> length arr"
  by (auto simp: slot_for_def split: if_splits)

lemma js_assign_twice:
  "i \<le> length arr \<Longrightarrow> js_assign (js_assign arr i a) i b = js_assign arr i b"
  by (auto simp: js_assign_def)

lemma js_assign_slot:
  "i \<le> length arr \<Longrightarrow> js_assign arr i e = (if i < length arr then arr[i := Some e] else arr @ [Some e])"
  by (auto simp: js_assign_inside js_assign_end)

lemma applyDiff_op_Add_effect:
  assumes dense: "None \<notin> set (priv_entries this)"
    and slot: "slot_for (priv_entries this) k index"
    and v: "v \<noteq> []"
    and r: "applyDiff_op (Add k v) this h = (err, this', h')"
  shows "err = None"
    and "priv_entries this' = js_assign (priv_entries this) index (k, v)"
    and "priv_state this' = priv_state this"
    and "length_env this' = length (js_assign (priv_entries this) index (k, v))"
    and "hasChanges this' = Some (changed this' h' \<noteq> {||})"
    and "deleted this' h' =
           (case clash index k this h of None \<Rightarrow> deleted this h |-| {|index|}
            | Some j \<Rightarrow> finsert j (deleted this h |-| {|index|}))"
    and "keyMap this' h' =
           (case clash index k this h of None \<Rightarrow> keyMap this h
            | Some j \<Rightarrow> obj_set (keyMap this h) k index)"
proof -
  define cur where "cur = priv_entries this"
  define arr1 where "arr1 = js_assign cur index (k, valueAt cur index)"
  have le: "index \<le> length cur"
    using slot_for_range[OF slot] by (simp add: cur_def)
  have ok1: "None \<notin> set arr1"
    unfolding arr1_def using dense le by (simp add: js_assign_dense cur_def)
  obtain e1 s1 h1 where k1: "setKeyAtIndex index k this h = (e1, s1, h1)"
    by (cases "setKeyAtIndex index k this h") blast
  note a = setKeyAtIndex_effect[OF k1 ok1[unfolded arr1_def cur_def]]
  have found: "findIndex k (priv_entries this) = Inr (if index < length cur then Some index else None)"
    using findIndex_slot[OF dense slot] by (simp add: cur_def)
  have "applyDiff_op (Add k v) this h = setValueAtIndex index v s1 h1"
    using v found k1 a(1) le
    by (auto simp: applyDiff_op_def Let_def cur_def)
  then have k2: "setValueAtIndex index v s1 h1 = (err, this', h')"
    using r by simp
  have p1: "priv_entries s1 = arr1"
    using a(2) by (simp add: arr1_def cur_def)
  have key1: "keyAt arr1 index = k"
    by (simp add: arr1_def keyAt_def js_index_assign)
  have arr2: "js_assign (priv_entries s1) index (keyAt (priv_entries s1) index, v) = js_assign cur index (k, v)"
    by (simp add: p1 key1) (simp add: arr1_def js_assign_twice[OF le])
  have ok2: "None \<notin> set (js_assign (priv_entries s1) index (keyAt (priv_entries s1) index, v))"
    unfolding arr2 using dense le by (simp add: js_assign_dense cur_def)
  note b = setValueAtIndex_effect[OF k2 ok2]
  show "err = None" by (rule b(1))
  show "priv_entries this' = js_assign (priv_entries this) index (k, v)"
    using b(2) arr2 by (simp add: cur_def)
  show "priv_state this' = priv_state this"
    using b(3) a(3) by simp
  show "length_env this' = length (js_assign (priv_entries this) index (k, v))"
    using b(4) arr2 by (simp add: cur_def)
  show "hasChanges this' = Some (changed this' h' \<noteq> {||})" by (rule b(5))
  show "deleted this' h' =
           (case clash index k this h of None \<Rightarrow> deleted this h |-| {|index|}
            | Some j \<Rightarrow> finsert j (deleted this h |-| {|index|}))"
    using b(6) a(6) v by simp
  have "keyMap this' h' = keyMap s1 h1"
    using b(9) b(3) by (simp add: keyMap_def)
  then show "keyMap this' h' =
           (case clash index k this h of None \<Rightarrow> keyMap this h
            | Some j \<Rightarrow> obj_set (keyMap this h) k index)"
    using a(9) by simp
qed

lemma applyDiff_op_Remove_slot:
  assumes dense: "None \<notin> set (priv_entries this)"
    and slot: "slot_for (priv_entries this) k index"
  shows "applyDiff_op (Remove k) this h =
           (if index < length (priv_entries this)
            then (None, fst (removeEntryAtIndex index this h), snd (removeEntryAtIndex index this h))
            else (None, this, h))"
  using findIndex_slot[OF dense slot]
  by (simp add: applyDiff_op_def Let_def split_beta)

text \<open>
  C9. \<open>applyDiff\<close> on a session whose array has no hole. An \<open>Add(k, "")\<close> changes nothing:
  the step returns the session and the store as they were, and a diff that starts with it
  is applied as its rest. An \<open>Add(k, v)\<close> with \<open>v\<close> not empty does not throw and writes
  \<open>(k, v)\<close> into the slot of \<open>k\<close>: over the first row whose key is \<open>k\<close>, or appended when
  no row has key \<open>k\<close>; every other row of the array is as before, and the length is that
  of the array. The written row is not deleted afterwards. The step deletes at most one
  other row: the row that \<open>uniqueKeyMap\<close> records for \<open>k\<close>, when that is another index
  (\<open>uniqueKeyMap\<close> is never updated by a rename, so it may be a row whose key is no longer
  \<open>k\<close>); \<open>uniqueKeyMap\<close> then records the written slot. With \<open>k\<close> not empty, \<open>(k, v)\<close> is
  a pair of \<open>entries()\<close>. The rest of the diff is applied to the resulting session, and a
  \<open>Remove(k)\<close> at the head removes the first row with key \<open>k\<close>, if any, before the rest.
\<close>

theorem applyDiff_add:
  assumes dense: "None \<notin> set (priv_entries this)"
  shows "applyDiff [] this h = (None, this, h) \<and>
         applyDiff_op (Add k []) this h = (None, this, h) \<and>
         applyDiff (Add k [] # diff) this h = applyDiff diff this h \<and>
         (\<forall>v index. v \<noteq> [] \<longrightarrow> slot_for (priv_entries this) k index \<longrightarrow>
            (let cur = priv_entries this;
                 displaced = (case (if k = ''__proto__'' then None else keyMap this h k) of
                                None \<Rightarrow> None
                              | Some j \<Rightarrow> if j \<noteq> index then Some j else None);
                 (err, this', h') = applyDiff_op (Add k v) this h
             in err = None \<and>
                priv_entries this' =
                  (if index < length cur then cur[index := Some (k, v)] else cur @ [Some (k, v)]) \<and>
                length_env this' = length (priv_entries this') \<and>
                index |\<notin>| deleted this' h' \<and>
                deleted this' h' =
                  (case displaced of None \<Rightarrow> deleted this h |-| {|index|}
                   | Some j \<Rightarrow> finsert j (deleted this h |-| {|index|})) \<and>
                keyMap this' h' =
                  (case displaced of None \<Rightarrow> keyMap this h
                   | Some j \<Rightarrow> (keyMap this h)(k \<mapsto> index)) \<and>
                hasChanges this' = Some (changed this' h' \<noteq> {||}) \<and>
                (k \<noteq> [] \<longrightarrow> Some (k, v) \<in> set (entries this' h')) \<and>
                applyDiff (Add k v # diff) this h = applyDiff diff this' h')) \<and>
         (\<forall>index. slot_for (priv_entries this) k index \<longrightarrow>
            applyDiff (Remove k # diff) this h =
              (if index < length (priv_entries this)
               then (let (this1, h1) = removeEntryAtIndex index this h in applyDiff diff this1 h1)
               else applyDiff diff this h))"
proof -
  have found: "\<exists>found. findIndex k (priv_entries this) = Inr found"
    by (rule findIndex_dense[OF dense])
  have skip: "applyDiff_op (Add k []) this h = (None, this, h)"
    using found by (auto simp: applyDiff_op_def)
  have skips: "applyDiff (Add k [] # diff) this h = applyDiff diff this h"
    by (simp add: skip)
  have add: "(let cur = priv_entries this;
                 displaced = (case (if k = ''__proto__'' then None else keyMap this h k) of
                                None \<Rightarrow> None
                              | Some j \<Rightarrow> if j \<noteq> index then Some j else None);
                 (err, this', h') = applyDiff_op (Add k v) this h
             in err = None \<and>
                priv_entries this' =
                  (if index < length cur then cur[index := Some (k, v)] else cur @ [Some (k, v)]) \<and>
                length_env this' = length (priv_entries this') \<and>
                index |\<notin>| deleted this' h' \<and>
                deleted this' h' =
                  (case displaced of None \<Rightarrow> deleted this h |-| {|index|}
                   | Some j \<Rightarrow> finsert j (deleted this h |-| {|index|})) \<and>
                keyMap this' h' =
                  (case displaced of None \<Rightarrow> keyMap this h
                   | Some j \<Rightarrow> (keyMap this h)(k \<mapsto> index)) \<and>
                hasChanges this' = Some (changed this' h' \<noteq> {||}) \<and>
                (k \<noteq> [] \<longrightarrow> Some (k, v) \<in> set (entries this' h')) \<and>
                applyDiff (Add k v # diff) this h = applyDiff diff this' h')"
    if v: "v \<noteq> []" and slot: "slot_for (priv_entries this) k index" for v index
  proof -
    obtain err this' h' where r: "applyDiff_op (Add k v) this h = (err, this', h')"
      by (cases "applyDiff_op (Add k v) this h") blast
    note e = applyDiff_op_Add_effect[OF dense slot v r]
    have le: "index \<le> length (priv_entries this)"
      by (rule slot_for_range[OF slot])
    have c: "clash index k this h =
               (case (if k = ''__proto__'' then None else keyMap this h k) of
                  None \<Rightarrow> None
                | Some j \<Rightarrow> if j \<noteq> index then Some j else None)"
      by (simp add: clash_def obj_get_def)
    have p: "priv_entries this' =
               (if index < length (priv_entries this) then (priv_entries this)[index := Some (k, v)]
                else priv_entries this @ [Some (k, v)])"
      using e(2) js_assign_slot[OF le] by simp
    have d: "deleted this' h' =
               (case clash index k this h of None \<Rightarrow> deleted this h |-| {|index|}
                | Some j \<Rightarrow> finsert j (deleted this h |-| {|index|}))"
      by (rule e(6))
    have nd: "index |\<notin>| deleted this' h'"
      unfolding d by (auto simp: clash_def split: option.splits if_splits)
    have km: "keyMap this' h' =
                (case clash index k this h of None \<Rightarrow> keyMap this h
                 | Some j \<Rightarrow> (keyMap this h)(k \<mapsto> index))"
      unfolding e(7) by (auto simp: clash_def obj_get_def obj_set_def split: option.splits if_splits)
    have at: "js_index (priv_entries this') index = Some (k, v)"
      unfolding e(2) by (simp add: js_index_assign)
    have mem: "Some (k, v) \<in> set (entries this' h')" if "k \<noteq> []"
    proof -
      have "(index, (k, v)) \<in> set (present (priv_entries this'))"
        using at by (simp add: present_set)
      then have "(index, (k, v)) \<in> set (filter (\<lambda>(index, entry). index |\<notin>| deleted this' h' \<and>
                     fst entry \<noteq> [] \<and> snd entry \<noteq> []) (present (priv_entries this')))"
        using nd v that by simp
      then have "(Some \<circ> snd) (index, (k, v)) \<in> set (entries this' h')"
        unfolding entries_eq set_map by (rule imageI)
      then show ?thesis by simp
    qed
    have cont: "applyDiff (Add k v # diff) this h = applyDiff diff this' h'"
      using r e(1) by simp
    have len: "length_env this' = length (priv_entries this')"
      using e(4) e(2) by simp
    show ?thesis
      unfolding Let_def r prod.case c[symmetric]
      using e(1) p len nd d km e(5) mem cont by simp
  qed
  have rem: "applyDiff (Remove k # diff) this h =
              (if index < length (priv_entries this)
               then (let (this1, h1) = removeEntryAtIndex index this h in applyDiff diff this1 h1)
               else applyDiff diff this h)"
    if slot: "slot_for (priv_entries this) k index" for index
    using applyDiff_op_Remove_slot[OF dense slot, of h]
    by (simp add: split_beta)
  show ?thesis
    using skip skips add rem by simp
qed

theorem applyDiff_add_witness:
  "(let (s0, h0) = new_EnvState [Some (''A'', ''1''), Some (''B'', ''2'')] None emptyHeap;
        (e1, s1, h1) = setKeyAtIndex 0 ''X'' s0 h0;
        (e2, s2, h2) = applyDiff [Add ''E'' [], Add ''A'' ''9''] s1 h1
    in None \<notin> set (priv_entries s1) \<and> ''9'' \<noteq> [] \<and> slot_for (priv_entries s1) ''A'' 2 \<and>
       ''A'' \<noteq> [] \<and>
       priv_entries s1 = [Some (''X'', ''1''), Some (''B'', ''2'')] \<and> deleted s1 h1 = {||} \<and>
       e2 = None \<and>
       priv_entries s2 = [Some (''X'', ''1''), Some (''B'', ''2''), Some (''A'', ''9'')] \<and>
       length_env s2 = 3 \<and> deleted s2 h2 = {|0|} \<and> keyMap s2 h2 ''A'' = Some 2 \<and>
       Some (''A'', ''9'') \<in> set (entries s2 h2) \<and>
       entries s2 h2 = [Some (''B'', ''2''), Some (''A'', ''9'')])"
proof -
  let ?b = "[Some (''A'', ''1''), Some (''B'', ''2'')]"
  obtain s0 h0 where n: "new_EnvState ?b None emptyHeap = (s0, h0)"
    by (cases "new_EnvState ?b None emptyHeap") blast
  obtain e1 s1 h1 where a: "setKeyAtIndex 0 ''X'' s0 h0 = (e1, s1, h1)"
    by (cases "setKeyAtIndex 0 ''X'' s0 h0") auto
  obtain e2 s2 h2 where b: "applyDiff_op (Add ''A'' ''9'') s1 h1 = (e2, s2, h2)"
    by (cases "applyDiff_op (Add ''A'' ''9'') s1 h1") auto
  have s0: "priv_entries s0 = ?b" "deleted s0 h0 = {||}"
    "keyMap s0 h0 ''A'' = Some 0" "keyMap s0 h0 ''X'' = None"
    using n
    by (auto simp: new_EnvState_def setDeletedLength_def Let_def deleted_def keyMap_def
        indexByKey_def present_def map_filter_def obj_set_def)
  have ok: "None \<notin> set (js_assign (priv_entries s0) 0 (''X'', valueAt (priv_entries s0) 0))"
    by (simp add: s0 js_assign_def)
  note k = setKeyAtIndex_effect[OF a ok]
  have s1: "priv_entries s1 = [Some (''X'', ''1''), Some (''B'', ''2'')]" "deleted s1 h1 = {||}"
    "keyMap s1 h1 ''A'' = Some 0"
    using k(2) k(6) k(9)
    by (simp_all add: s0 js_assign_def valueAt_def js_index_def clash_def obj_get_def)
  have d1: "None \<notin> set (priv_entries s1)"
    by (simp add: s1)
  have slot: "slot_for (priv_entries s1) ''A'' 2"
  proof -
    have "priv_entries s1 ! j \<noteq> Some (''A'', w)" if "j < length (priv_entries s1)" for j w
    proof -
      from that have "j = 0 \<or> j = Suc 0" by (auto simp: s1)
      then show ?thesis by (auto simp: s1)
    qed
    then have "\<not> (\<exists>j < length (priv_entries s1). \<exists>w. priv_entries s1 ! j = Some (''A'', w))"
      by blast
    then show ?thesis
      unfolding slot_for_def by (simp add: s1)
  qed
  from applyDiff_add[OF d1, of h1 "''E''" "[Add ''A'' ''9'']"]
  have skip: "applyDiff [Add ''E'' [], Add ''A'' ''9''] s1 h1 = applyDiff [Add ''A'' ''9''] s1 h1"
    by simp
  have nz: "''9'' \<noteq> []"
    by simp
  note add = applyDiff_add[OF d1, of h1 "''A''" "[]", THEN conjunct2, THEN conjunct2,
      THEN conjunct2, THEN conjunct1, rule_format, OF nz slot]
  from add
  have t: "e2 = None"
    "priv_entries s2 = [Some (''X'', ''1''), Some (''B'', ''2''), Some (''A'', ''9'')]"
    "length_env s2 = 3" "deleted s2 h2 = {|0|}" "keyMap s2 h2 ''A'' = Some 2"
    "Some (''A'', ''9'') \<in> set (entries s2 h2)"
    "applyDiff [Add ''A'' ''9''] s1 h1 = (None, s2, h2)"
    by (simp_all add: Let_def b s1)
  have en: "entries s2 h2 = [Some (''B'', ''2''), Some (''A'', ''9'')]"
    by (simp add: entries_eq t(2,4) present_def map_filter_def)
  show ?thesis
    using d1 slot s1 t(1-6) en by (simp add: n a skip t(7) del: applyDiff.simps)
qed

section \<open>The reconciler\<close>

text \<open>
  C4. The release that arrives has the name of the previous one (the stream delivers the
  current release again), and the session has an unsaved edit: over the baseline A=1 the
  row 0 is deleted, \<open>hasChanges\<close> is true and \<open>entries()\<close> is empty. The callback sets the
  fresh session over the baseline, whose \<open>entries()\<close> is A=1: the deletion is lost. The
  fresh session with \<open>applyDiff\<close> of the diff from the previous baseline to the session's
  \<open>entries()\<close>, which the claim describes, has no entry.
\<close>

theorem same_release_drops_edits:
  "(let r1 = \<lparr>getName = ''r1'', getEnvMap = [Some (''A'', ''1'')]\<rparr>;
        (s0, h0) = new_EnvState (getEnvMap r1) None emptyHeap;
        (s1, h1) = dup s0 h0;
        (s2, h2) = removeEntryAtIndex 0 s1 h1;
        w = \<lparr>release = Some r1, isLoading = False, isDeploying = False, envState = Some s2\<rparr>;
        (err, w', h3) = getData_onRelease r1 w h2;
        (fresh, h4) = new_EnvState (getEnvMap r1) None h2;
        (err', replayed, h5) = applyDiff (protoMapDiff (getEnvMap r1) (entries s2 h4)) fresh h4
    in hasChanges s2 = Some True \<and> entries s2 h2 = [] \<and> err = None \<and>
       map_option (\<lambda>s. entries s h3) (envState w') = Some [Some (''A'', ''1'')] \<and>
       entries replayed h5 = [])"
  by code_simp

text \<open>
  With a release of another name the edits are replayed: over the previous baseline A=1
  with row 0 deleted, the baseline A=1, C=3 gives a session whose \<open>entries()\<close> is C=3.
\<close>

lemma reconciler_scenario:
  "(let r1 = \<lparr>getName = ''r1'', getEnvMap = [Some (''A'', ''1'')]\<rparr>;
        r2 = \<lparr>getName = ''r2'', getEnvMap = [Some (''A'', ''1''), Some (''C'', ''3'')]\<rparr>;
        (s0, h0) = new_EnvState (getEnvMap r1) None emptyHeap;
        (s1, h1) = dup s0 h0;
        (s2, h2) = removeEntryAtIndex 0 s1 h1;
        w = \<lparr>release = Some r1, isLoading = False, isDeploying = False, envState = Some s2\<rparr>;
        (err, w', h3) = getData_onRelease r2 w h2
    in hasChanges s2 = Some True \<and> entries s2 h2 = [] \<and> err = None \<and>
       map_option (\<lambda>s. entries s h3) (envState w') = Some [Some (''C'', ''3'')])"
  by code_simp

text \<open>
  The callback when there is no previous release or the name differs: the fresh session
  when there is no prior session or its \<open>hasChanges\<close> is not true, otherwise the fresh
  session after \<open>applyDiff\<close> of the diff from the previous baseline (the empty map when
  there is none) to the prior session's \<open>entries()\<close>. When \<open>applyDiff\<close> throws, the state
  is not set.
\<close>

lemma reconciler_general:
  "(case release w of None \<Rightarrow> True | Some pr \<Rightarrow> getName pr \<noteq> getName rel) \<longrightarrow>
   getData_onRelease rel w h =
     (let (fresh, h0) = new_EnvState (getEnvMap rel) None h;
          started = (None, w\<lparr>release := Some rel, envState := Some fresh, isLoading := False\<rparr>, h0)
      in case envState w of
           None \<Rightarrow> started
         | Some prev \<Rightarrow>
             if hasChanges prev = Some True then
               (case applyDiff
                       (protoMapDiff (case release w of Some pr \<Rightarrow> getEnvMap pr | None \<Rightarrow> projr (new_Map []))
                          (entries prev h0))
                       fresh h0 of
                  (None, s, h1) \<Rightarrow>
                    (None, w\<lparr>release := Some rel, envState := Some s, isLoading := False\<rparr>, h1)
                | (Some e, s, h1) \<Rightarrow> (Some e, w, h1))
             else started)"
proof
  assume g: "case release w of None \<Rightarrow> True | Some pr \<Rightarrow> getName pr \<noteq> getName rel"
  obtain fresh h0 where n: "new_EnvState (getEnvMap rel) None h = (fresh, h0)"
    by (cases "new_EnvState (getEnvMap rel) None h") blast
  show "getData_onRelease rel w h =
     (let (fresh, h0) = new_EnvState (getEnvMap rel) None h;
          started = (None, w\<lparr>release := Some rel, envState := Some fresh, isLoading := False\<rparr>, h0)
      in case envState w of
           None \<Rightarrow> started
         | Some prev \<Rightarrow>
             if hasChanges prev = Some True then
               (case applyDiff
                       (protoMapDiff (case release w of Some pr \<Rightarrow> getEnvMap pr | None \<Rightarrow> projr (new_Map []))
                          (entries prev h0))
                       fresh h0 of
                  (None, s, h1) \<Rightarrow>
                    (None, w\<lparr>release := Some rel, envState := Some s, isLoading := False\<rparr>, h1)
                | (Some e, s, h1) \<Rightarrow> (Some e, w, h1))
             else started)"
  proof (cases "envState w")
    case None
    then show ?thesis using g by (simp add: getData_onRelease_def n)
  next
    case (Some prev)
    show ?thesis
    proof (cases "hasChanges prev = Some True")
      case False
      then show ?thesis using g Some by (simp add: getData_onRelease_def n)
    next
      case True
      let ?d = "protoMapDiff (case release w of Some pr \<Rightarrow> getEnvMap pr | None \<Rightarrow> projr (new_Map [])) (entries prev h0)"
      obtain err s h1 where a: "applyDiff ?d fresh h0 = (err, s, h1)"
        by (cases "applyDiff ?d fresh h0") auto
      have e: "?d = [] \<Longrightarrow> err = None \<and> s = fresh \<and> h1 = h0"
        using a by simp
      show ?thesis
        using g Some True a e
        by (cases "?d = []"; cases err) (simp_all add: getData_onRelease_def n Let_def)
    qed
  qed
qed

section \<open>The diff engine\<close>

lemma map_of_upsert: "map_of (upsert k v ps) = (map_of ps)(k \<mapsto> v)"
  by (induction ps) (auto simp: fun_eq_iff)

lemma keys_upsert: "set (map fst (upsert k v ps)) = insert k (set (map fst ps))"
  by (induction ps) auto

lemma distinct_upsert: "distinct (map fst ps) \<Longrightarrow> distinct (map fst (upsert k v ps))"
proof (induction ps)
  case Nil
  show ?case by simp
next
  case (Cons p ps)
  have "fst p \<notin> set (map fst (upsert k v ps))" if "fst p \<noteq> k"
    using that Cons.prems unfolding keys_upsert by simp
  with Cons show ?case by auto
qed

lemma map_of_remove: "map_of (filter (\<lambda>p. fst p \<noteq> k) ps) = (map_of ps)(k := None)"
  by (induction ps) (auto simp: fun_eq_iff)

lemma distinct_apply_op: "distinct (map fst ps) \<Longrightarrow> distinct (map fst (apply_op dop ps))"
  by (cases dop) (simp_all add: distinct_upsert distinct_map_filter)

lemma distinct_fold_apply_op:
  "distinct (map fst ps) \<Longrightarrow> distinct (map fst (fold apply_op diff ps))"
  by (induction diff arbitrary: ps) (simp_all add: distinct_apply_op)

lemma map_of_apply_op:
  "map_of (apply_op dop ps) =
     (case dop of Add k v \<Rightarrow> (map_of ps)(k \<mapsto> v) | Remove k \<Rightarrow> (map_of ps)(k := None))"
  by (cases dop) (simp_all add: map_of_upsert map_of_remove)

lemma map_of_fold_apply_op:
  "map_of (fold apply_op diff ps) =
     fold (\<lambda>dop m. case dop of Add k v \<Rightarrow> m(k \<mapsto> v) | Remove k \<Rightarrow> m(k := None)) diff (map_of ps)"
  by (induction diff arbitrary: ps) (simp_all add: map_of_apply_op)

lemma fold_adds:
  "distinct (map fst t) \<Longrightarrow>
   fold (\<lambda>dop m. case dop of Add k v \<Rightarrow> m(k \<mapsto> v) | Remove k \<Rightarrow> m(k := None))
     (map (\<lambda>(k, v). Add k v) (filter P t)) m =
   (\<lambda>k. case map_of t k of None \<Rightarrow> m k | Some v \<Rightarrow> if P (k, v) then Some v else m k)"
proof (induction t arbitrary: m)
  case Nil
  show ?case by simp
next
  case (Cons p t)
  obtain k0 v0 where p: "p = (k0, v0)" by (cases p)
  from Cons.prems p have nk: "map_of t k0 = None" and dt: "distinct (map fst t)"
    by (auto simp: map_of_eq_None_iff)
  show ?case
    using nk by (auto simp: p Cons.IH[OF dt] fun_eq_iff split: option.splits)
qed

lemma fold_removes:
  "fold (\<lambda>dop m. case dop of Add k v \<Rightarrow> m(k \<mapsto> v) | Remove k \<Rightarrow> m(k := None))
     (map (\<lambda>(k, v). Remove k) (filter Q f)) m =
   (\<lambda>k. if \<exists>v. (k, v) \<in> set f \<and> Q (k, v) then None else m k)"
proof (induction f arbitrary: m)
  case Nil
  show ?case by simp
next
  case (Cons p f)
  obtain k0 v0 where p: "p = (k0, v0)" by (cases p)
  show ?case
    by (auto simp: p Cons.IH fun_eq_iff)
qed

lemma get_last_distinct: "distinct (map fst ps) \<Longrightarrow> get_last ps = map_of ps"
proof -
  assume d: "distinct (map fst ps)"
  then have dr: "distinct (map fst (rev ps))" by (simp add: rev_map[symmetric])
  have "map_of (rev ps) k = map_of ps k" for k
  proof (cases "map_of ps k")
    case None
    then have "k \<notin> fst ` set ps" by (simp add: map_of_eq_None_iff)
    then have "map_of (rev ps) k = None" by (simp add: map_of_eq_None_iff)
    then show ?thesis using None by simp
  next
    case (Some v)
    then have "(k, v) \<in> set (rev ps)" by (auto dest: map_of_SomeD)
    then show ?thesis using Some dr by simp
  qed
  then show ?thesis by (auto simp: get_last_def fun_eq_iff)
qed

lemma key_in_iff: "(\<exists>v. (k, v) \<in> set ps) \<longleftrightarrow> map_of ps k \<noteq> None"
proof
  assume "\<exists>v. (k, v) \<in> set ps"
  then have "k \<in> fst ` set ps" by force
  then show "map_of ps k \<noteq> None" by (simp add: map_of_eq_None_iff)
next
  assume "map_of ps k \<noteq> None"
  then obtain v where "map_of ps k = Some v" by auto
  then have "(k, v) \<in> set ps" by (rule map_of_SomeD)
  then show "\<exists>v. (k, v) \<in> set ps" ..
qed

lemma set_distinct_keys: "distinct (map fst ps) \<Longrightarrow> set ps = {(k, v). map_of ps k = Some v}"
  by auto

text \<open>
  C1, as the claim states it, for every pair of OrderedMaps: section 4.1 admits sequences
  with a repeated key, and applying a diff never yields two pairs with one key out of the
  empty map.
\<close>

theorem diff_round_trip_counterexample:
  "nonEmptyPairs (applyProtoMapDiff []
      (protoMapDiff [] [Some (''k'', ''1''), Some (''k'', ''2'')]))
   \<noteq> nonEmptyPairs [Some (''k'', ''1''), Some (''k'', ''2'')]"
  by (simp add: nonEmptyPairs_def applyProtoMapDiff_def protoMapDiff_def toPairs_def present_def
      map_filter_def get_last_def Let_def)

text \<open>
  C1, amended. For OrderedMaps A and B in each of which no key occurs twice, applying
  \<open>diff(A, B)\<close> to A yields an OrderedMap whose pairs with non-empty key and value are,
  as a set, those of B.
\<close>

theorem diff_round_trip:
  assumes dA: "distinct (map fst (toPairs A))" and dB: "distinct (map fst (toPairs B))"
  shows "nonEmptyPairs (applyProtoMapDiff A (protoMapDiff A B)) = nonEmptyPairs B"
proof -
  let ?fr = "toPairs A" and ?to = "toPairs B"
  let ?r = "fold apply_op (protoMapDiff A B) ?fr"
  let ?P = "\<lambda>(k, v). v \<noteq> [] \<and> map_of ?fr k \<noteq> Some v"
  let ?Q = "\<lambda>(k, v::string). map_of ?to k = None \<or> map_of ?to k = Some []"
  have diff: "protoMapDiff A B =
      map (\<lambda>(k, v). Add k v) (filter ?P ?to) @ map (\<lambda>(k, v). Remove k) (filter ?Q ?fr)"
    by (simp add: protoMapDiff_def Let_def get_last_distinct[OF dA] get_last_distinct[OF dB])
  have dr: "distinct (map fst ?r)"
    by (rule distinct_fold_apply_op[OF dA])
  have m: "map_of ?r k = (case map_of ?to k of None \<Rightarrow> None | Some v \<Rightarrow> if v \<noteq> [] then Some v else None)"
    for k
  proof -
    have inf: "(\<exists>v. (k, v) \<in> set ?fr) \<longleftrightarrow> map_of ?fr k \<noteq> None"
      by (rule key_in_iff)
    show ?thesis
      unfolding map_of_fold_apply_op diff fold_append comp_def fold_adds[OF dB] fold_removes
      using inf by (auto split: option.splits)
  qed
  have "set ?r = {(k, v). map_of ?r k = Some v}"
    by (rule set_distinct_keys[OF dr])
  also have "\<dots> = {(k, v). map_of ?to k = Some v \<and> v \<noteq> []}"
    by (auto simp: m split: option.splits if_splits)
  also have "\<dots> = {(k, v). (k, v) \<in> set ?to \<and> v \<noteq> []}"
    using dB by auto
  finally have "set ?r = {(k, v). (k, v) \<in> set ?to \<and> v \<noteq> []}" .
  then show ?thesis
    by (auto simp: nonEmptyPairs_def applyProtoMapDiff_def toPairs_map_Some)
qed

theorem diff_round_trip_witness:
  "distinct (map fst (toPairs [Some (''A'', ''1''), Some (''B'', ''2''), Some (''C'', [])])) \<and>
   distinct (map fst (toPairs [Some (''A'', ''9''), Some (''C'', []), Some (''D'', ''4'')])) \<and>
   protoMapDiff [Some (''A'', ''1''), Some (''B'', ''2''), Some (''C'', [])]
      [Some (''A'', ''9''), Some (''C'', []), Some (''D'', ''4'')]
     = [Add ''A'' ''9'', Add ''D'' ''4'', Remove ''B'', Remove ''C''] \<and>
   nonEmptyPairs (applyProtoMapDiff [Some (''A'', ''1''), Some (''B'', ''2''), Some (''C'', [])]
      [Add ''A'' ''9'', Add ''D'' ''4'', Remove ''B'', Remove ''C''])
     = nonEmptyPairs [Some (''A'', ''9''), Some (''C'', []), Some (''D'', ''4'')]"
proof -
  let ?A = "[Some (''A'', ''1''), Some (''B'', ''2''), Some (''C'', [])]"
  let ?B = "[Some (''A'', ''9''), Some (''C'', []), Some (''D'', ''4'')]"
  have a: "distinct (map fst (toPairs ?A))"
    by (simp add: toPairs_def present_def map_filter_def)
  have b: "distinct (map fst (toPairs ?B))"
    by (simp add: toPairs_def present_def map_filter_def)
  have d: "protoMapDiff ?A ?B = [Add ''A'' ''9'', Add ''D'' ''4'', Remove ''B'', Remove ''C'']"
    by (simp add: protoMapDiff_def toPairs_def present_def map_filter_def get_last_def Let_def)
  from diff_round_trip[OF a b] show ?thesis
    using a b d by simp
qed


section \<open>Change tracking\<close>

lemma entriesEqual_iff: "entriesEqual x y \<longleftrightarrow> (\<exists>a. x = Some a \<and> y = Some a)"
  by (cases x; cases y) (auto simp: prod_eq_iff)

lemma trackedI:
  assumes "\<And>j. j |\<notin>| changed s h \<Longrightarrow> j |\<in>| deleted s h \<Longrightarrow>
             getLength (originalEntries (priv_state s)) \<le> j"
    and "\<And>j. j |\<notin>| changed s h \<Longrightarrow> j |\<notin>| deleted s h \<Longrightarrow>
             js_index (priv_entries s) j = js_index (originalEntries (priv_state s)) j"
  shows "tracked s h"
  unfolding tracked_def using assms by simp

lemma trackedD1:
  "tracked s h \<Longrightarrow> j |\<notin>| changed s h \<Longrightarrow> j |\<in>| deleted s h \<Longrightarrow>
     getLength (originalEntries (priv_state s)) \<le> j"
  unfolding tracked_def by (drule spec[of _ j]) simp

lemma trackedD2:
  "tracked s h \<Longrightarrow> j |\<notin>| changed s h \<Longrightarrow> j |\<notin>| deleted s h \<Longrightarrow>
     js_index (priv_entries s) j = js_index (originalEntries (priv_state s)) j"
  unfolding tracked_def by (drule spec[of _ j]) simp

lemma new_EnvState_effect:
  assumes "new_EnvState b None h0 = (s, h)"
  shows "originalEntries (priv_state s) = b" and "priv_entries s = b"
    and "changed s h = {||}" and "deleted s h = {||}" and "hasChanges s = None"
  using assms
  by (auto simp: new_EnvState_def Let_def setDeletedLength_def changed_def deleted_def)

lemma coherent_new:
  assumes "new_EnvState b None h0 = (s, h)" and "None \<notin> set b"
  shows "coherent b s h"
  using new_EnvState_effect[OF assms(1)] assms(2)
  unfolding coherent_def by (auto intro: trackedI)

lemma not_dirty_deleted:
  "\<not> dirty i s h \<Longrightarrow> i |\<in>| deleted s h \<Longrightarrow> getLength (originalEntries (priv_state s)) \<le> i"
  by (simp add: dirty_def)

lemma not_dirty_present:
  "\<not> dirty i s h \<Longrightarrow> i |\<notin>| deleted s h \<Longrightarrow>
     js_index (priv_entries s) i = js_index (originalEntries (priv_state s)) i"
  by (auto simp: dirty_def entriesEqual_iff)

lemma tracked_step:
  assumes inv: "tracked s h"
    and orig: "originalEntries (priv_state s') = originalEntries (priv_state s)"
    and rest: "\<And>j. j \<notin> T \<Longrightarrow>
        (j |\<in>| changed s' h' \<longleftrightarrow> j |\<in>| changed s h) \<and>
        (j |\<in>| deleted s' h' \<longleftrightarrow> j |\<in>| deleted s h) \<and>
        js_index (priv_entries s') j = js_index (priv_entries s) j"
    and touched: "\<And>j. j \<in> T \<Longrightarrow> j |\<notin>| changed s' h' \<Longrightarrow> \<not> dirty j s' h'"
  shows "tracked s' h'"
proof (rule trackedI)
  fix j
  assume c: "j |\<notin>| changed s' h'" and d: "j |\<in>| deleted s' h'"
  show "getLength (originalEntries (priv_state s')) \<le> j"
  proof (cases "j \<in> T")
    case True
    from not_dirty_deleted[OF touched[OF True c] d] show ?thesis .
  next
    case False
    from rest[OF False] c d have "j |\<notin>| changed s h" "j |\<in>| deleted s h" by simp_all
    from trackedD1[OF inv this] show ?thesis by (simp add: orig)
  qed
next
  fix j
  assume c: "j |\<notin>| changed s' h'" and d: "j |\<notin>| deleted s' h'"
  show "js_index (priv_entries s') j = js_index (originalEntries (priv_state s')) j"
  proof (cases "j \<in> T")
    case True
    from not_dirty_present[OF touched[OF True c] d] show ?thesis .
  next
    case False
    from rest[OF False] c d have "j |\<notin>| changed s h" "j |\<notin>| deleted s h"
      and "js_index (priv_entries s') j = js_index (priv_entries s) j" by simp_all
    with trackedD2[OF inv this(1,2)] show ?thesis by (simp add: orig)
  qed
qed

lemma tracked_removeEntryAtIndex:
  assumes r: "removeEntryAtIndex i s h = (s', h')" and inv: "tracked s h"
  shows "tracked s' h'"
proof (rule tracked_step[OF inv, where T = "{i}"])
  note e = removeEntryAtIndex_effect[OF r]
  show "originalEntries (priv_state s') = originalEntries (priv_state s)"
    by (simp add: e(2))
  show "(j |\<in>| changed s' h' \<longleftrightarrow> j |\<in>| changed s h) \<and>
        (j |\<in>| deleted s' h' \<longleftrightarrow> j |\<in>| deleted s h) \<and>
        js_index (priv_entries s') j = js_index (priv_entries s) j" if "j \<notin> {i}" for j
    using that by (simp add: e(1) e(6) e(7))
  show "\<not> dirty j s' h'" if "j \<in> {i}" "j |\<notin>| changed s' h'" for j
    using that by (simp add: dirty_def e(2) e(6) e(7) split: if_splits)
qed

lemma tracked_setValueAtIndex:
  assumes r: "setValueAtIndex i v s h = (err, s', h')"
    and ok: "None \<notin> set (js_assign (priv_entries s) i (keyAt (priv_entries s) i, v))"
    and inv: "tracked s h"
  shows "tracked s' h'"
proof (rule tracked_step[OF inv, where T = "{i}"])
  note e = setValueAtIndex_effect[OF r ok]
  show "originalEntries (priv_state s') = originalEntries (priv_state s)"
    by (simp add: e(3))
  show "(j |\<in>| changed s' h' \<longleftrightarrow> j |\<in>| changed s h) \<and>
        (j |\<in>| deleted s' h' \<longleftrightarrow> j |\<in>| deleted s h) \<and>
        js_index (priv_entries s') j = js_index (priv_entries s) j" if "j \<notin> {i}" for j
    using that by (simp add: e(2) e(6) e(8) js_index_assign)
  show "\<not> dirty j s' h'" if "j \<in> {i}" "j |\<notin>| changed s' h'" for j
  proof -
    from that have j: "j = i" by simp
    have cur: "js_index (priv_entries s') i = Some (keyAt (priv_entries s) i, v)"
      by (simp add: e(2) js_index_assign)
    show ?thesis
      using that(2) unfolding j dirty_def e(3) e(6) e(8) cur
      by (auto split: if_splits)
  qed
qed

lemma tracked_setKeyAtIndex:
  assumes r: "setKeyAtIndex i k s h = (err, s', h')"
    and ok: "None \<notin> set (js_assign (priv_entries s) i (k, valueAt (priv_entries s) i))"
    and inv: "tracked s h"
  shows "tracked s' h'"
proof -
  note e = setKeyAtIndex_effect[OF r ok]
  have cur: "js_index (priv_entries s') j =
      (if j = i then Some (k, valueAt (priv_entries s) i) else js_index (priv_entries s) j)" for j
    by (simp add: e(2) js_index_assign)
  have orig: "originalEntries (priv_state s') = originalEntries (priv_state s)"
    by (simp add: e(3))
  show ?thesis
  proof (cases "clash i k s h")
    case None
    note d = e(6)[unfolded None option.case] and c = e(8)[unfolded None option.case]
    show ?thesis
    proof (rule tracked_step[OF inv orig, where T = "{i}"])
      show "(j |\<in>| changed s' h' \<longleftrightarrow> j |\<in>| changed s h) \<and>
        (j |\<in>| deleted s' h' \<longleftrightarrow> j |\<in>| deleted s h) \<and>
        js_index (priv_entries s') j = js_index (priv_entries s) j" if "j \<notin> {i}" for j
        using that by (simp add: cur d c)
      show "\<not> dirty j s' h'" if "j \<in> {i}" "j |\<notin>| changed s' h'" for j
        using that by (simp add: dirty_def e(3) cur d c split: if_splits)
    qed
  next
    case (Some j0)
    then have ne: "j0 \<noteq> i" by (rule clash_neq)
    note d = e(6)[unfolded Some option.case] and c = e(8)[unfolded Some option.case]
    show ?thesis
    proof (rule tracked_step[OF inv orig, where T = "{i, j0}"])
      show "(j |\<in>| changed s' h' \<longleftrightarrow> j |\<in>| changed s h) \<and>
        (j |\<in>| deleted s' h' \<longleftrightarrow> j |\<in>| deleted s h) \<and>
        js_index (priv_entries s') j = js_index (priv_entries s) j" if "j \<notin> {i, j0}" for j
        using that by (simp add: cur d c)
      show "\<not> dirty j s' h'" if "j \<in> {i, j0}" "j |\<notin>| changed s' h'" for j
      proof (cases "j = i")
        case True
        then show ?thesis
          using that(2) ne by (simp add: dirty_def e(3) cur d c split: if_splits)
      next
        case False
        with that(1) have "j = j0" by simp
        then show ?thesis
          using that(2) ne by (simp add: dirty_def e(3) cur d c split: if_splits)
      qed
    qed
  qed
qed

lemma hole_beyond:
  "None \<notin> set arr \<Longrightarrow> None \<in> set (js_assign arr i e) \<Longrightarrow> length arr < i"
  using js_assign_dense[of arr i e] by (cases "i \<le> length arr") auto

lemma coherent_removeEntryAtIndex:
  assumes r: "removeEntryAtIndex i s h = (s', h')" and inv: "coherent b s h"
  shows "coherent b s' h'"
  using inv tracked_removeEntryAtIndex[OF r] removeEntryAtIndex_effect(1,2)[OF r]
  by (simp add: coherent_def)

lemma coherent_setValueAtIndex:
  assumes r: "setValueAtIndex i v s h = (err, s', h')" and inv: "coherent b s h"
  shows "coherent b s' h'"
proof (cases "None \<in> set (js_assign (priv_entries s) i (keyAt (priv_entries s) i, v))")
  case True
  note t = setValueAtIndex_throws[OF r True]
  have same: "changed s' h' = changed s h" "deleted s' h' = deleted s h"
    "priv_entries s' = priv_entries s" "priv_state s' = priv_state s"
    by (simp_all add: t(2) t(3) changed_def deleted_def)
  then have "tracked s' h' = tracked s h"
    by (simp add: tracked_def)
  then show ?thesis
    using inv same by (simp add: coherent_def)
next
  case False
  note e = setValueAtIndex_effect[OF r False]
  from inv have "tracked s h" by (simp add: coherent_def)
  from tracked_setValueAtIndex[OF r False this] inv e(2,3) False
  show ?thesis by (simp add: coherent_def)
qed

lemma coherent_setKeyAtIndex:
  assumes r: "setKeyAtIndex i k s h = (err, s', h')" and inv: "coherent b s h"
    and full: "getLength b = length b"
  shows "coherent b s' h'"
proof (cases "None \<in> set (js_assign (priv_entries s) i (k, valueAt (priv_entries s) i))")
  case True
  note t = setKeyAtIndex_throws[OF r True]
  from inv have o: "originalEntries (priv_state s) = b" and d: "None \<notin> set (priv_entries s)"
    and tr: "tracked s h"
    by (simp_all add: coherent_def)
  have beyond: "length (priv_entries s) < i"
    by (rule hole_beyond[OF d True])
  have c: "changed s' h' = changed s h"
    by (simp add: changed_def t(3) t(6))
  have "tracked s' h'"
  proof (rule trackedI)
    fix j
    assume "j |\<notin>| changed s' h'" and "j |\<in>| deleted s' h'"
    then have "j |\<notin>| changed s h" "j |\<in>| deleted s h"
      by (simp_all add: c t(5))
    from trackedD1[OF tr this] show "getLength (originalEntries (priv_state s')) \<le> j"
      by (simp add: t(3))
  next
    fix j
    assume n: "j |\<notin>| changed s' h'" and "j |\<notin>| deleted s' h'"
    then have nc: "j |\<notin>| changed s h" and del: "j = i \<or> j |\<notin>| deleted s h"
      by (auto simp: c t(5))
    show "js_index (priv_entries s') j = js_index (originalEntries (priv_state s')) j"
    proof (cases "j |\<in>| deleted s h")
      case False
      from trackedD2[OF tr nc False] show ?thesis by (simp add: t(2) t(3))
    next
      case True
      with del have j: "j = i" by blast
      from trackedD1[OF tr nc True] have "length b \<le> i"
        by (simp add: o full j)
      then show ?thesis
        using beyond by (simp add: t(2) t(3) o j js_index_def)
    qed
  qed
  then show ?thesis
    using o d by (simp add: coherent_def t(2) t(3))
next
  case False
  note e = setKeyAtIndex_effect[OF r False]
  from inv have "tracked s h" by (simp add: coherent_def)
  from tracked_setKeyAtIndex[OF r False this] inv e(2,3) False
  show ?thesis by (simp add: coherent_def)
qed

lemma coherent_applyDiff_op:
  assumes r: "applyDiff_op dop s h = (err, s', h')" and inv: "coherent b s h"
    and full: "getLength b = length b"
  shows "coherent b s' h'"
proof (cases "findIndex (key_of dop) (priv_entries s)")
  case (Inl e)
  with r inv show ?thesis by (simp add: applyDiff_op_def)
next
  case (Inr found)
  show ?thesis
  proof (cases dop)
    case (Add k v)
    show ?thesis
    proof (cases "v = []")
      case True
      with r inv Inr Add show ?thesis by (simp add: applyDiff_op_def)
    next
      case False
      define index where "index = (case found of None \<Rightarrow> length (priv_entries s) | Some i \<Rightarrow> i)"
      obtain e1 s1 h1 where a: "setKeyAtIndex index k s h = (e1, s1, h1)"
        by (cases "setKeyAtIndex index k s h") auto
      note c1 = coherent_setKeyAtIndex[OF a inv full]
      have op: "applyDiff_op dop s h =
                  (case setKeyAtIndex index k s h of
                     (Some e, this1, h1) \<Rightarrow> (Some e, this1, h1)
                   | (None, this1, h1) \<Rightarrow> setValueAtIndex index v this1 h1)"
        using False Inr Add unfolding applyDiff_op_def toArray_def index_def
        by (simp add: Let_def)
      show ?thesis
      proof (cases e1)
        case (Some e)
        have "applyDiff_op dop s h = (Some e, s1, h1)"
          unfolding op a Some by simp
        with r c1 show ?thesis by simp
      next
        case None
        have "applyDiff_op dop s h = setValueAtIndex index v s1 h1"
          unfolding op a None by simp
        with r have "setValueAtIndex index v s1 h1 = (err, s', h')" by simp
        from coherent_setValueAtIndex[OF this c1] show ?thesis .
      qed
    qed
  next
    case (Remove k)
    show ?thesis
    proof (cases found)
      case None
      with r inv Inr Remove show ?thesis by (simp add: applyDiff_op_def)
    next
      case (Some index)
      obtain s1 h1 where a: "removeEntryAtIndex index s h = (s1, h1)"
        by (cases "removeEntryAtIndex index s h") blast
      have "applyDiff_op dop s h = (None, s1, h1)"
        using Inr Remove Some a by (simp add: applyDiff_op_def)
      with r coherent_removeEntryAtIndex[OF a inv] show ?thesis by simp
    qed
  qed
qed

lemma coherent_applyDiff:
  "applyDiff diff s h = (err, s', h') \<Longrightarrow> coherent b s h \<Longrightarrow> getLength b = length b \<Longrightarrow>
     coherent b s' h'"
proof (induction diff arbitrary: s h)
  case Nil
  then show ?case by simp
next
  case (Cons dop diff)
  obtain e1 s1 h1 where a: "applyDiff_op dop s h = (e1, s1, h1)"
    by (cases "applyDiff_op dop s h") auto
  note t = coherent_applyDiff_op[OF a Cons.prems(2,3)]
  show ?case
  proof (cases e1)
    case None
    with Cons.prems(1) a have "applyDiff diff s1 h1 = (err, s', h')" by simp
    from Cons.IH[OF this t Cons.prems(3)] show ?thesis .
  next
    case (Some e)
    with Cons.prems(1) a have "s' = s1" "h' = h1" by simp_all
    with t show ?thesis by simp
  qed
qed

lemma coherent_copy:
  assumes "new_EnvState (priv_entries s) (Some st) h = (s', h')"
    and "originalEntries st = originalEntries (priv_state s)"
    and "changedIndices st = changedIndices (priv_state s)"
    and "deletedIndices st = deletedIndices (priv_state s)"
    and "coherent b s h"
  shows "coherent b s' h'"
  using assms
  by (auto simp: new_EnvState_def Let_def setDeletedLength_def coherent_def tracked_def
      changed_def deleted_def)

lemma coherent_run:
  assumes r: "run m (s, h) = (err, s', h')" and inv: "coherent b s h"
    and full: "getLength b = length b"
  shows "coherent b s' h'"
proof (cases m)
  case (SetKeyAtIndex i k)
  with r have "setKeyAtIndex i k s h = (err, s', h')" by simp
  from coherent_setKeyAtIndex[OF this inv full] show ?thesis .
next
  case (SetValueAtIndex i v)
  with r have "setValueAtIndex i v s h = (err, s', h')" by simp
  from coherent_setValueAtIndex[OF this inv] show ?thesis .
next
  case (RemoveEntryAtIndex i)
  with r have "removeEntryAtIndex i s h = (s', h')" by simp
  from coherent_removeEntryAtIndex[OF this inv] show ?thesis .
next
  case (ApplyDiff diff)
  with r have "applyDiff diff s h = (err, s', h')" by simp
  from coherent_applyDiff[OF this inv full] show ?thesis .
next
  case Dup
  with r have "new_EnvState (priv_entries s) (Some (priv_state s)) h = (s', h')"
    by (simp add: dup_def)
  from coherent_copy[OF this _ _ _ inv] show ?thesis by simp
next
  case (Filtered ft)
  with r have "new_EnvState (priv_entries s) (Some ((priv_state s)\<lparr>filterText := ft\<rparr>)) h = (s', h')"
    by (simp add: filtered_def)
  from coherent_copy[OF this _ _ _ inv] show ?thesis by simp
qed

lemma coherent_runs:
  "runs ops (s, h) = (s', h') \<Longrightarrow> coherent b s h \<Longrightarrow> getLength b = length b \<Longrightarrow>
     coherent b s' h'"
proof (induction ops arbitrary: s h)
  case Nil
  then show ?case by (simp add: runs_def)
next
  case (Cons m ops)
  obtain e1 s1 h1 where a: "run m (s, h) = (e1, s1, h1)"
    by (cases "run m (s, h)") auto
  with Cons.prems(1) have "runs ops (s1, h1) = (s', h')" by (simp add: runs_def)
  from Cons.IH[OF this coherent_run[OF a Cons.prems(2,3)] Cons.prems(3)] show ?case .
qed


lemma flag_setValueAtIndex:
  assumes r: "setValueAtIndex i v s h = (err, s', h')"
  shows "hasChanges s' = Some (changed s' h' \<noteq> {||}) \<or>
         (hasChanges s' = hasChanges s \<and> changed s' h' = changed s h)"
proof (cases "None \<in> set (js_assign (priv_entries s) i (keyAt (priv_entries s) i, v))")
  case True
  note t = setValueAtIndex_throws[OF r True]
  show ?thesis by (simp add: t(2) t(3) changed_def)
next
  case False
  from setValueAtIndex_effect(5)[OF r False] show ?thesis by simp
qed

lemma flag_setKeyAtIndex:
  assumes r: "setKeyAtIndex i k s h = (err, s', h')"
  shows "hasChanges s' = Some (changed s' h' \<noteq> {||}) \<or>
         (hasChanges s' = hasChanges s \<and> changed s' h' = changed s h)"
proof (cases "None \<in> set (js_assign (priv_entries s) i (k, valueAt (priv_entries s) i))")
  case True
  note t = setKeyAtIndex_throws[OF r True]
  show ?thesis by (simp add: t(3) t(4) t(6) changed_def)
next
  case False
  from setKeyAtIndex_effect(5)[OF r False] show ?thesis by simp
qed

lemma flag_trans:
  fixes c0 c1 c2 :: "nat fset"
  assumes "hc1 = Some (c1 \<noteq> {||}) \<or> (hc1 = hc0 \<and> c1 = c0)"
    and "hc2 = Some (c2 \<noteq> {||}) \<or> (hc2 = hc1 \<and> c2 = c1)"
  shows "hc2 = Some (c2 \<noteq> {||}) \<or> (hc2 = hc0 \<and> c2 = c0)"
  using assms by blast

lemma flag_applyDiff_op:
  assumes r: "applyDiff_op dop s h = (err, s', h')"
  shows "hasChanges s' = Some (changed s' h' \<noteq> {||}) \<or>
         (hasChanges s' = hasChanges s \<and> changed s' h' = changed s h)"
proof (cases "findIndex (key_of dop) (priv_entries s)")
  case (Inl e)
  with r show ?thesis by (simp add: applyDiff_op_def)
next
  case (Inr found)
  show ?thesis
  proof (cases dop)
    case (Add k v)
    show ?thesis
    proof (cases "v = []")
      case True
      with r Inr Add show ?thesis by (simp add: applyDiff_op_def)
    next
      case False
      define index where "index = (case found of None \<Rightarrow> length (priv_entries s) | Some i \<Rightarrow> i)"
      obtain e1 s1 h1 where a: "setKeyAtIndex index k s h = (e1, s1, h1)"
        by (cases "setKeyAtIndex index k s h") auto
      note f1 = flag_setKeyAtIndex[OF a]
      have op: "applyDiff_op dop s h =
                  (case setKeyAtIndex index k s h of
                     (Some e, this1, h1) \<Rightarrow> (Some e, this1, h1)
                   | (None, this1, h1) \<Rightarrow> setValueAtIndex index v this1 h1)"
        using False Inr Add unfolding applyDiff_op_def toArray_def index_def
        by (simp add: Let_def)
      show ?thesis
      proof (cases e1)
        case (Some e)
        have "applyDiff_op dop s h = (Some e, s1, h1)"
          unfolding op a Some by simp
        with r have "s' = s1" "h' = h1" by simp_all
        then show ?thesis using f1 by blast
      next
        case None
        have "applyDiff_op dop s h = setValueAtIndex index v s1 h1"
          unfolding op a None by simp
        with r have "setValueAtIndex index v s1 h1 = (err, s', h')" by simp
        from flag_trans[OF f1 flag_setValueAtIndex[OF this]] show ?thesis .
      qed
    qed
  next
    case (Remove k)
    show ?thesis
    proof (cases found)
      case None
      with r Inr Remove show ?thesis by (simp add: applyDiff_op_def)
    next
      case (Some index)
      obtain s1 h1 where a: "removeEntryAtIndex index s h = (s1, h1)"
        by (cases "removeEntryAtIndex index s h") blast
      have "applyDiff_op dop s h = (None, s1, h1)"
        using Inr Remove Some a by (simp add: applyDiff_op_def)
      with r have "s' = s1" "h' = h1" by simp_all
      then show ?thesis using removeEntryAtIndex_effect(5)[OF a] by blast
    qed
  qed
qed

lemma flag_applyDiff:
  "applyDiff diff s h = (err, s', h') \<Longrightarrow>
     hasChanges s' = Some (changed s' h' \<noteq> {||}) \<or>
     (hasChanges s' = hasChanges s \<and> changed s' h' = changed s h)"
proof (induction diff arbitrary: s h)
  case Nil
  then show ?case by simp
next
  case (Cons dop diff)
  obtain e1 s1 h1 where a: "applyDiff_op dop s h = (e1, s1, h1)"
    by (cases "applyDiff_op dop s h") auto
  note f1 = flag_applyDiff_op[OF a]
  show ?case
  proof (cases e1)
    case None
    with Cons.prems(1) a have "applyDiff diff s1 h1 = (err, s', h')" by simp
    from flag_trans[OF f1 Cons.IH[OF this]] show ?thesis .
  next
    case (Some e)
    with Cons.prems(1) a have "s' = s1" "h' = h1" by simp_all
    then show ?thesis using f1 by blast
  qed
qed

lemma flag_run:
  assumes r: "run m (s, h) = (err, s', h')"
  shows "hasChanges s' = Some (changed s' h' \<noteq> {||}) \<or>
         (hasChanges s' = (if is_mutation m then hasChanges s else None) \<and>
          changed s' h' = changed s h)"
proof (cases m)
  case (SetKeyAtIndex i k)
  with r have a: "setKeyAtIndex i k s h = (err, s', h')" by simp
  have m: "is_mutation m" by (simp add: SetKeyAtIndex)
  show ?thesis unfolding if_P[OF m] by (rule flag_setKeyAtIndex[OF a])
next
  case (SetValueAtIndex i v)
  with r have a: "setValueAtIndex i v s h = (err, s', h')" by simp
  have m: "is_mutation m" by (simp add: SetValueAtIndex)
  show ?thesis unfolding if_P[OF m] by (rule flag_setValueAtIndex[OF a])
next
  case (RemoveEntryAtIndex i)
  with r have "removeEntryAtIndex i s h = (s', h')" by simp
  from removeEntryAtIndex_effect(5)[OF this] show ?thesis by blast
next
  case (ApplyDiff diff)
  with r have a: "applyDiff diff s h = (err, s', h')" by simp
  have m: "is_mutation m" by (simp add: ApplyDiff)
  show ?thesis unfolding if_P[OF m] by (rule flag_applyDiff[OF a])
next
  case Dup
  with r have "hasChanges s' = None" "changed s' h' = changed s h"
    by (auto simp: dup_def new_EnvState_def Let_def setDeletedLength_def changed_def)
  then show ?thesis by (simp add: Dup)
next
  case (Filtered ft)
  with r have "hasChanges s' = None" "changed s' h' = changed s h"
    by (auto simp: filtered_def new_EnvState_def Let_def setDeletedLength_def changed_def)
  then show ?thesis by (simp add: Filtered)
qed


lemma flag_none:
  fixes c0 c1 :: "nat fset"
  assumes "hc1 = Some (c1 \<noteq> {||}) \<or> (hc1 = hc \<and> c1 = c0)"
    and "hc = None \<or> hc = hc0"
    and "hc0 = None \<or> hc0 = Some (c0 \<noteq> {||})"
  shows "hc1 = None \<or> hc1 = Some (c1 \<noteq> {||})"
  using assms by auto


lemma assigned_runs:
  "runs ops (s, h) = (s', h') \<Longrightarrow>
   hasChanges s = None \<or> hasChanges s = Some (changed s h \<noteq> {||}) \<Longrightarrow>
   hasChanges s' = None \<or> hasChanges s' = Some (changed s' h' \<noteq> {||})"
proof (induction ops arbitrary: s h)
  case Nil
  then show ?case by (simp add: runs_def)
next
  case (Cons m ops)
  obtain e1 s1 h1 where a: "run m (s, h) = (e1, s1, h1)"
    by (cases "run m (s, h)") auto
  with Cons.prems(1) have rest: "runs ops (s1, h1) = (s', h')" by (simp add: runs_def)
  have "(if is_mutation m then hasChanges s else None) = None \<or>
        (if is_mutation m then hasChanges s else None) = hasChanges s"
    by simp
  from Cons.IH[OF rest flag_none[OF flag_run[OF a] this Cons.prems(2)]] show ?case .
qed

lemma nonEmptyPairs_iff:
  "e \<in> nonEmptyPairs m \<longleftrightarrow> (\<exists>i. js_index m i = Some e) \<and> fst e \<noteq> [] \<and> snd e \<noteq> []"
  by (force simp: nonEmptyPairs_def toPairs_def present_set[symmetric])

lemma nonEmptyPairs_entries_iff:
  "e \<in> nonEmptyPairs (entries s h) \<longleftrightarrow>
     (\<exists>i. js_index (priv_entries s) i = Some e \<and> i |\<notin>| deleted s h) \<and> fst e \<noteq> [] \<and> snd e \<noteq> []"
proof -
  have "toPairs (entries s h) =
      map snd (filter (\<lambda>(index, entry). index |\<notin>| deleted s h \<and> fst entry \<noteq> [] \<and> snd entry \<noteq> [])
          (present (priv_entries s)))"
    by (simp add: entries_eq toPairs_map_Some flip: map_map)
  then show ?thesis
    by (force simp: nonEmptyPairs_def present_set[symmetric])
qed

lemma unchanged_entries:
  assumes inv: "coherent b s h" and full: "getLength b = length b" and c: "changed s h = {||}"
  shows "nonEmptyPairs (entries s h) = nonEmptyPairs b"
proof -
  from inv have o: "originalEntries (priv_state s) = b" and tr: "tracked s h"
    by (simp_all add: coherent_def)
  have n: "i |\<notin>| changed s h" for i by (simp add: c)
  have "e \<in> nonEmptyPairs (entries s h) \<longleftrightarrow> e \<in> nonEmptyPairs b" for e
  proof
    assume "e \<in> nonEmptyPairs (entries s h)"
    then obtain i where i: "js_index (priv_entries s) i = Some e" "i |\<notin>| deleted s h"
      and ne: "fst e \<noteq> []" "snd e \<noteq> []"
      unfolding nonEmptyPairs_entries_iff by blast
    from trackedD2[OF tr n i(2)] i(1)
    have "js_index b i = Some e" by (simp add: o)
    with ne show "e \<in> nonEmptyPairs b"
      unfolding nonEmptyPairs_iff by blast
  next
    assume "e \<in> nonEmptyPairs b"
    then obtain i where i: "js_index b i = Some e"
      and ne: "fst e \<noteq> []" "snd e \<noteq> []"
      unfolding nonEmptyPairs_iff by blast
    from i have lt: "i < length b"
      by (simp add: js_index_def split: if_splits)
    have nd: "i |\<notin>| deleted s h"
      using trackedD1[OF tr n, of i] lt by (auto simp: o full)
    from trackedD2[OF tr n nd] i have "js_index (priv_entries s) i = Some e" by (simp add: o)
    with nd ne show "e \<in> nonEmptyPairs (entries s h)"
      unfolding nonEmptyPairs_entries_iff by blast
  qed
  then show ?thesis by blast
qed

lemma nonEmptyPairs_map_Some:
  "nonEmptyPairs (map Some ps) = {p \<in> set ps. fst p \<noteq> [] \<and> snd p \<noteq> []}"
  by (auto simp: nonEmptyPairs_def toPairs_map_Some)

lemma getLength_map_Some:
  "distinct (map fst ps) \<Longrightarrow> ''__proto__'' \<notin> set (map fst ps) \<Longrightarrow>
     getLength (map Some ps) = length (map Some ps)"
  by (rule getLength_distinct) (auto simp: toPairs_map_Some)




text \<open>
  With \<open>dup\<close> and \<open>filtered\<close> among the operations, \<open>changedIndices\<close> still is not empty
  whenever the non-empty pairs of \<open>entries()\<close> differ from the baseline's, and
  \<open>hasChanges\<close>, once assigned, tells whether \<open>changedIndices\<close> is empty.
\<close>

lemma changedIndices_any_sequence:
  assumes "distinct (map fst ps)" and "''__proto__'' \<notin> set (map fst ps)"
    and "new_EnvState (map Some ps) None h0 = (s0, h1)"
    and "runs ops (s0, h1) = (s, h)"
  shows "(nonEmptyPairs (entries s h) \<noteq> {p \<in> set ps. fst p \<noteq> [] \<and> snd p \<noteq> []} \<longrightarrow>
            changed s h \<noteq> {||}) \<and>
         (hasChanges s = None \<or> hasChanges s = Some (changed s h \<noteq> {||}))"
proof -
  let ?b = "map Some ps"
  note n = new_EnvState_effect[OF assms(3)]
  have full: "getLength ?b = length ?b"
    by (rule getLength_map_Some[OF assms(1,2)])
  have dense: "None \<notin> set ?b" by auto
  have c: "coherent ?b s h"
    by (rule coherent_runs[OF assms(4) coherent_new[OF assms(3) dense] full])
  have "hasChanges s0 = None \<or> hasChanges s0 = Some (changed s0 h1 \<noteq> {||})"
    by (simp add: n(5))
  note a = assigned_runs[OF assms(4) this]
  have "changed s h = {||} \<Longrightarrow>
          nonEmptyPairs (entries s h) = {p \<in> set ps. fst p \<noteq> [] \<and> snd p \<noteq> []}"
    using unchanged_entries[OF c full] by (simp add: nonEmptyPairs_map_Some)
  with a show ?thesis by blast
qed

text \<open>
  The constructor does not assign \<open>hasChanges\<close>: the session that \<open>dup()\<close> or \<open>filtered()\<close>
  returns has it undefined, also when \<open>changedIndices\<close>, which the copy shares, is not
  empty and \<open>entries()\<close> differs from the baseline. Over the baseline A=1, after deleting
  row 0:
\<close>

lemma copy_leaves_hasChanges_undefined:
  "(let (s0, h0) = new_EnvState [Some (''A'', ''1'')] None emptyHeap;
        (s1, h1) = removeEntryAtIndex 0 s0 h0;
        (s2, h2) = filtered ''x'' s1 h1;
        (s3, h3) = dup s1 h1
    in hasChanges s1 = Some True \<and>
       hasChanges s2 = None \<and> changed s2 h2 = {|0|} \<and> entries s2 h2 = [] \<and>
       hasChanges s3 = None \<and> changed s3 h3 = {|0|} \<and> entries s3 h3 = [])"
  by code_simp

end
